theory Spec2Isabelle
  imports Complex_Main "HOL-Library.Multiset"
begin

section \<open>Values, errors and tensors\<close>

text \<open>
  The search strategies of \<^verbatim>\<open>fairseq/search.py\<close> work on tensors of log-probabilities.
  A log-probability is modelled as a real number or minus infinity (\<^verbatim>\<open>-math.inf\<close>);
  rounding, NaN and plus infinity of the machine floats are left out of the model.
  A tensor of rank 2 or 3 is a nested list; its shape is read off the lists, so the model
  represents the tensors with at least one batch element, and their vocabulary size where
  they have a beam slot (without batch elements \<^verbatim>\<open>view(bsz, -1)\<close> raises on the empty
  tensor, and the model returns an error as well).
  A raised Python exception is a value \<open>Inl e\<close> of the result type.
\<close>

datatype error =
  RuntimeError | ValueError | IndexError | AttributeError | ZeroDivisionError | NameError

datatype lprob = NegInf | Val real

instantiation lprob :: linorder
begin

fun less_eq_lprob :: "lprob \<Rightarrow> lprob \<Rightarrow> bool" where
  "less_eq_lprob NegInf y = True"
| "less_eq_lprob (Val a) NegInf = False"
| "less_eq_lprob (Val a) (Val b) = (a \<le> b)"

definition less_lprob :: "lprob \<Rightarrow> lprob \<Rightarrow> bool" where
  "less_lprob x y = (x \<le> y \<and> \<not> y \<le> x)"

instance
proof
  fix x y z :: lprob
  show "(x < y) = (x \<le> y \<and> \<not> y \<le> x)"
    by (simp add: less_lprob_def)
  show "x \<le> x"
    by (cases x) simp_all
  show "x \<le> y \<Longrightarrow> y \<le> z \<Longrightarrow> x \<le> z"
    by (cases x; cases y; cases z) simp_all
  show "x \<le> y \<Longrightarrow> y \<le> x \<Longrightarrow> x = y"
    by (cases x; cases y) simp_all
  show "x \<le> y \<or> y \<le> x"
    by (cases x; cases y) auto
qed

end

instantiation lprob :: plus
begin

fun plus_lprob :: "lprob \<Rightarrow> lprob \<Rightarrow> lprob" where
  "plus_lprob NegInf y = NegInf"
| "plus_lprob (Val a) NegInf = NegInf"
| "plus_lprob (Val a) (Val b) = Val (a + b)"

instance ..

end

text \<open>Adding a finite float to a log-probability (a penalty, a scaled count).\<close>

fun shift :: "lprob \<Rightarrow> real \<Rightarrow> lprob" where
  "shift NegInf r = NegInf"
| "shift (Val a) r = Val (a + r)"

text \<open>The reversed order, the key of a descending sort.\<close>

datatype 'a down = Down 'a

instantiation down :: (linorder) linorder
begin

fun less_eq_down :: "'a down \<Rightarrow> 'a down \<Rightarrow> bool" where
  "less_eq_down (Down a) (Down b) = (b \<le> a)"

fun less_down :: "'a down \<Rightarrow> 'a down \<Rightarrow> bool" where
  "less_down (Down a) (Down b) = (b < a)"

instance
proof
  fix x y z :: "'a down"
  show "(x < y) = (x \<le> y \<and> \<not> y \<le> x)"
    by (cases x; cases y) auto
  show "x \<le> x"
    by (cases x) simp
  show "x \<le> y \<Longrightarrow> y \<le> z \<Longrightarrow> x \<le> z"
    by (cases x; cases y; cases z) simp
  show "x \<le> y \<Longrightarrow> y \<le> x \<Longrightarrow> x = y"
    by (cases x; cases y) simp
  show "x \<le> y \<or> y \<le> x"
    by (cases x; cases y) auto
qed

end

type_synonym 'a tensor2 = "'a list list"
type_synonym 'a tensor3 = "'a list list list"

text \<open>\<open>is_tensor3 B K V t\<close>: the nested list \<open>t\<close> is a tensor of shape \<open>(B, K, V)\<close>.\<close>

definition is_tensor2 :: "nat \<Rightarrow> nat \<Rightarrow> 'a tensor2 \<Rightarrow> bool" where
  "is_tensor2 B K t = (length t = B \<and> list_all (\<lambda>r. length r = K) t)"

definition is_tensor3 :: "nat \<Rightarrow> nat \<Rightarrow> nat \<Rightarrow> 'a tensor3 \<Rightarrow> bool" where
  "is_tensor3 B K V t = (length t = B \<and> list_all (is_tensor2 K V) t)"

text \<open>Running a fallible operation over a list; the first error is the result.\<close>

fun mapM :: "('a \<Rightarrow> error + 'b) \<Rightarrow> 'a list \<Rightarrow> error + 'b list" where
  "mapM f [] = Inr []"
| "mapM f (x # xs) =
     (case f x of
        Inl e \<Rightarrow> Inl e
      | Inr y \<Rightarrow> (case mapM f xs of Inl e \<Rightarrow> Inl e | Inr ys \<Rightarrow> Inr (y # ys)))"

text \<open>
  \<^verbatim>\<open>torch.topk(xs, k)\<close> on one row: the \<open>k\<close> largest values in descending order, with
  their positions. It raises when \<open>k\<close> exceeds the length of the row. The order among
  equal values is implementation-defined in the library; the model fixes it as the
  lower position first (a stable descending sort).
\<close>

definition sort_desc :: "'a::linorder list \<Rightarrow> ('a \<times> nat) list" where
  "sort_desc xs = sort_key (\<lambda>p. Down (fst p)) (zip xs [0..<length xs])"

definition topk :: "nat \<Rightarrow> 'a::linorder list \<Rightarrow> error + ('a list \<times> nat list)" where
  "topk k xs =
     (if length xs < k then Inl RuntimeError
      else let top = take k (sort_desc xs) in Inr (map fst top, map snd top))"

text \<open>
  \<^verbatim>\<open>t[:, :, j]\<close> and the broadcast of \<^verbatim>\<open>lprobs.add_(col.unsqueeze(-1))\<close>: a dimension of the
  added tensor must have the size of the target's or size 1.
\<close>

definition select_col :: "nat \<Rightarrow> 'a tensor3 \<Rightarrow> error + 'a tensor2" where
  "select_col j t =
     (if list_all (list_all (\<lambda>r. j < length r)) t then Inr (map (map (\<lambda>r. r ! j)) t)
      else Inl IndexError)"

definition bcast :: "nat \<Rightarrow> 'a list \<Rightarrow> error + 'a list" where
  "bcast n xs =
     (if length xs = n then Inr xs
      else if length xs = 1 then Inr (replicate n (hd xs))
      else Inl RuntimeError)"

definition add_col :: "lprob tensor3 \<Rightarrow> lprob tensor2 \<Rightarrow> error + lprob tensor3" where
  "add_col lprobs col =
     (case bcast (length lprobs) col of
        Inl e \<Rightarrow> Inl e
      | Inr colB \<Rightarrow>
          mapM (\<lambda>(m, c). case bcast (length m) c of
                  Inl e \<Rightarrow> Inl e
                | Inr cK \<Rightarrow> Inr (map (\<lambda>(row, s). map (\<lambda>x. x + s) row) (zip m cK)))
               (zip lprobs colB))"

section \<open>BeamSearch\<close>

text \<open>
  The result of a step: the triple \<^verbatim>\<open>(scores, indices, beams)\<close>, each of shape
  \<^verbatim>\<open>(bsz, output_beam_size)\<close>.
\<close>

type_synonym selection = "lprob tensor2 \<times> nat tensor2 \<times> nat tensor2"

text \<open>
  The ranking of one batch element: \<^verbatim>\<open>torch.topk(lprobs.view(bsz, -1), k)\<close> on the
  flattened rows, then \<^verbatim>\<open>torch.div(indices, vocab_size)\<close> (the division of integer
  tensors, rounding down) and \<^verbatim>\<open>indices.fmod_(vocab_size)\<close>.
\<close>

definition rank_flat ::
  "nat \<Rightarrow> nat \<Rightarrow> lprob list list \<Rightarrow> error + (lprob list \<times> nat list \<times> nat list)" where
  "rank_flat beam_size vocab_size m =
     (let flat = concat m in
      if length flat = 0 then Inl RuntimeError
      else case topk (min (beam_size * 2) (length flat - 1)) flat of
             Inl e \<Rightarrow> Inl e
           | Inr (vals, idxs) \<Rightarrow>
               Inr (vals, map (\<lambda>i. i mod vocab_size) idxs, map (\<lambda>i. i div vocab_size) idxs))"

definition unzip3 :: "('a \<times> 'b \<times> 'c) list \<Rightarrow> 'a list \<times> 'b list \<times> 'c list" where
  "unzip3 rs = (map fst rs, map (fst \<circ> snd) rs, map (snd \<circ> snd) rs)"

text \<open>\<^verbatim>\<open>lprobs[:, ::beam_size, :]\<close> keeps the first of the \<open>beam_size\<close> rows.\<close>

definition first_beam :: "'a tensor3 \<Rightarrow> 'a tensor3" where
  "first_beam lprobs = map (take 1) lprobs"

definition BeamSearch_step ::
  "nat \<Rightarrow> lprob tensor3 \<Rightarrow> lprob tensor3 \<Rightarrow> error + selection" where
  "BeamSearch_step step lprobs scores =
     (if lprobs = [] then Inl RuntimeError
      else
        let beam_size = length (hd lprobs) in
        if beam_size = 0 then Inl (if step = 0 then ValueError else RuntimeError)
        else
          let vocab_size = length (hd (hd lprobs)) in
          case (if step = 0 then Inr (first_beam lprobs)
                else case select_col (step - 1) scores of
                       Inl e \<Rightarrow> Inl e
                     | Inr col \<Rightarrow> add_col lprobs col) of
            Inl e \<Rightarrow> Inl e
          | Inr lprobs' \<Rightarrow>
              (case mapM (rank_flat beam_size vocab_size) lprobs' of
                 Inl e \<Rightarrow> Inl e
               | Inr rs \<Rightarrow> Inr (unzip3 rs)))"

section \<open>LengthConstrainedBeamSearch\<close>

text \<open>
  \<^verbatim>\<open>Search.__init__\<close> sets \<^verbatim>\<open>src_lengths = torch.tensor(-1)\<close>, a tensor of rank 0;
  \<^verbatim>\<open>set_src_lengths\<close> replaces it by what the caller supplies, a vector with one length
  per batch element. The coefficients are Python floats.
\<close>

datatype lengths = Scalar int | Vector "int list"

record lc_search =
  min_len_a :: real
  min_len_b :: real
  max_len_a :: real
  max_len_b :: real
  eos :: nat
  src_lengths :: lengths

definition LengthConstrainedBeamSearch_init ::
  "nat \<Rightarrow> real \<Rightarrow> real \<Rightarrow> real \<Rightarrow> real \<Rightarrow> lc_search" where
  "LengthConstrainedBeamSearch_init e a b c d =
     \<lparr>min_len_a = a, min_len_b = b, max_len_a = c, max_len_b = d, eos = e,
      src_lengths = Scalar (- 1)\<rparr>"

definition set_src_lengths :: "lc_search \<Rightarrow> int list \<Rightarrow> lc_search" where
  "set_src_lengths s ls = s\<lparr>src_lengths := Vector ls\<rparr>"

text \<open>
  \<^verbatim>\<open>lprobs[mask, :, eos] = v\<close>. A mask of rank 1 selects batch elements, the slice runs
  over the beams and \<^verbatim>\<open>eos\<close> indexes the vocabulary. A mask of rank 0 takes no dimension
  of \<^verbatim>\<open>lprobs\<close>: the slice then runs over the batch and \<^verbatim>\<open>eos\<close> indexes the beams.
  An index out of range and a mask of the wrong length raise \<^verbatim>\<open>IndexError\<close>.
\<close>

definition assign_masked ::
  "bool list \<Rightarrow> nat \<Rightarrow> lprob \<Rightarrow> lprob tensor3 \<Rightarrow> error + lprob tensor3" where
  "assign_masked msk e v lprobs =
     (if \<not> list_all (list_all (\<lambda>row. e < length row)) lprobs then Inl IndexError
      else if length msk \<noteq> length lprobs then Inl IndexError
      else Inr (map (\<lambda>(m, c). if c then map (\<lambda>row. row[e := v]) m else m) (zip lprobs msk)))"

definition assign_masked0 ::
  "bool \<Rightarrow> nat \<Rightarrow> lprob \<Rightarrow> lprob tensor3 \<Rightarrow> error + lprob tensor3" where
  "assign_masked0 c e v lprobs =
     (if \<not> list_all (\<lambda>m. e < length m) lprobs then Inl IndexError
      else if c then Inr (map (\<lambda>m. m[e := map (\<lambda>x. v) (m ! e)]) lprobs)
      else Inr lprobs)"

definition assign_where ::
  "(real \<Rightarrow> bool) \<Rightarrow> real \<Rightarrow> real \<Rightarrow> lengths \<Rightarrow> nat \<Rightarrow> lprob \<Rightarrow> lprob tensor3 \<Rightarrow>
     error + lprob tensor3" where
  "assign_where cond a b ls e v lprobs =
     (case ls of
        Scalar l \<Rightarrow> assign_masked0 (cond (a * of_int l + b)) e v lprobs
      | Vector xs \<Rightarrow> assign_masked (map (\<lambda>l. cond (a * of_int l + b)) xs) e v lprobs)"

text \<open>The three assignments of \<^verbatim>\<open>LengthConstrainedBeamSearch.step\<close>, in their order.\<close>

definition constrain_lengths :: "lc_search \<Rightarrow> nat \<Rightarrow> lprob tensor3 \<Rightarrow> error + lprob tensor3" where
  "constrain_lengths s step lprobs =
     (case assign_where (\<lambda>min_len. real step < min_len) (min_len_a s) (min_len_b s)
             (src_lengths s) (eos s) NegInf lprobs of
        Inl err \<Rightarrow> Inl err
      | Inr lprobs1 \<Rightarrow>
         (case assign_where (\<lambda>max_len. real step = max_len) (max_len_a s) (max_len_b s)
                 (src_lengths s) (eos s) (Val 0) lprobs1 of
            Inl err \<Rightarrow> Inl err
          | Inr lprobs2 \<Rightarrow>
              assign_where (\<lambda>max_len. real step > max_len) (max_len_a s) (max_len_b s)
                (src_lengths s) (eos s) NegInf lprobs2))"

definition LengthConstrainedBeamSearch_step ::
  "lc_search \<Rightarrow> nat \<Rightarrow> lprob tensor3 \<Rightarrow> lprob tensor3 \<Rightarrow> error + selection" where
  "LengthConstrainedBeamSearch_step s step lprobs scores =
     (case constrain_lengths s step lprobs of
        Inl err \<Rightarrow> Inl err
      | Inr lprobs' \<Rightarrow> BeamSearch_step step lprobs' scores)"

section \<open>DiverseBeamSearch\<close>

record dbs_search =
  num_groups :: nat
  diversity_strength :: real

definition DiverseBeamSearch_init :: "nat \<Rightarrow> real \<Rightarrow> dbs_search" where
  "DiverseBeamSearch_init g strength = \<lparr>num_groups = g, diversity_strength = - strength\<rparr>"

text \<open>The slice \<^verbatim>\<open>xs[g::n]\<close> for \<open>g \<le> length xs\<close> and \<open>0 < n\<close>.\<close>

definition strided :: "nat \<Rightarrow> nat \<Rightarrow> 'a list \<Rightarrow> 'a list" where
  "strided g n xs = map (\<lambda>j. xs ! (g + j * n)) [0..<(length xs - g + n - 1) div n]"

text \<open>
  \<^verbatim>\<open>diversity_buf.scatter_add_(1, indices, ones)\<close> on one batch element: the count of
  every chosen token goes up by one per choice. The positions are the tokens that
  \<^verbatim>\<open>BeamSearch.step\<close> returned, all below the vocabulary size.
\<close>

fun scatter_add :: "real list \<Rightarrow> nat list \<Rightarrow> real list" where
  "scatter_add buf [] = buf"
| "scatter_add buf (i # is) = scatter_add (buf[i := buf ! i + 1]) is"

text \<open>
  \<^verbatim>\<open>torch.add(lprobs_g, diversity_strength, diversity_buf.unsqueeze(1))\<close>: every row of a
  batch element gets \<open>strength * count\<close> added, token by token.
\<close>

definition add_penalty :: "real \<Rightarrow> lprob tensor3 \<Rightarrow> real tensor2 \<Rightarrow> lprob tensor3" where
  "add_penalty strength lprobs buf =
     map (\<lambda>(m, d). map (\<lambda>row. map (\<lambda>(x, c). shift x (strength * c)) (zip row d)) m)
       (zip lprobs buf)"

text \<open>The loop over the groups; the state is the diversity buffer.\<close>

fun dbs_groups ::
  "dbs_search \<Rightarrow> nat \<Rightarrow> lprob tensor3 \<Rightarrow> lprob tensor3 \<Rightarrow> nat list \<Rightarrow> real tensor2 \<Rightarrow>
     error + selection list" where
  "dbs_groups s step lprobs scores [] buf = Inr []"
| "dbs_groups s step lprobs scores (g # gs) buf =
     (let lprobs_g = map (strided g (num_groups s)) lprobs;
          scores_g = (if step > 0 then map (strided g (num_groups s)) scores else []);
          lprobs_g' = (if g > 0 then add_penalty (diversity_strength s) lprobs_g buf
                       else lprobs_g)
      in case BeamSearch_step step lprobs_g' scores_g of
           Inl e \<Rightarrow> Inl e
         | Inr (scores_buf, indices_buf, beams_buf) \<Rightarrow>
             (let beams_buf' = map (map (\<lambda>b. b * num_groups s + g)) beams_buf;
                  buf' = map (\<lambda>(d, is). scatter_add d is) (zip buf indices_buf)
              in case dbs_groups s step lprobs scores gs buf' of
                   Inl e \<Rightarrow> Inl e
                 | Inr rs \<Rightarrow> Inr ((scores_buf, indices_buf, beams_buf') # rs)))"

text \<open>
  \<^verbatim>\<open>torch.stack(xs_G, dim=2).view(bsz, -1)\<close>: position \<open>j * num_groups + g\<close> of a batch
  element holds entry \<open>j\<close> of group \<open>g\<close>.
\<close>

definition interleave :: "'a tensor2 list \<Rightarrow> 'a tensor2" where
  "interleave ts =
     (if ts = [] then []
      else map (\<lambda>b. concat (transpose (map (\<lambda>t. t ! b) ts))) [0..<length (hd ts)])"

definition DiverseBeamSearch_step ::
  "dbs_search \<Rightarrow> nat \<Rightarrow> lprob tensor3 \<Rightarrow> lprob tensor3 \<Rightarrow> error + selection" where
  "DiverseBeamSearch_step s step lprobs scores =
     (if lprobs = [] then Inl RuntimeError
      else
        let beam_size = length (hd lprobs) in
        if num_groups s = 0 then Inl ZeroDivisionError
        else if beam_size mod num_groups s \<noteq> 0 then Inl ValueError
        else if beam_size = 0 then Inl IndexError
        else
          let vocab_size = length (hd (hd lprobs));
              diversity_buf = replicate (length lprobs) (replicate vocab_size 0)
          in case dbs_groups s step lprobs scores [0..<num_groups s] diversity_buf of
               Inl e \<Rightarrow> Inl e
             | Inr rs \<Rightarrow>
                 Inr (interleave (map fst rs), interleave (map (fst \<circ> snd) rs),
                      interleave (map (snd \<circ> snd) rs)))"

section \<open>Sampling\<close>

record sampling =
  sampling_topk :: int
  sampling_topp :: real

definition Sampling_init :: "int \<Rightarrow> real \<Rightarrow> sampling" where
  "Sampling_init k p = \<lparr>sampling_topk = k, sampling_topp = p\<rparr>"

text \<open>
  \<^verbatim>\<open>exp_\<close> and \<^verbatim>\<open>log_\<close> between log-probabilities and probabilities. The logarithm is
  only taken of probabilities, which are not negative.
\<close>

fun exp_lp :: "lprob \<Rightarrow> real" where
  "exp_lp NegInf = 0"
| "exp_lp (Val a) = exp a"

definition log_lp :: "real \<Rightarrow> lprob" where
  "log_lp x = (if x = 0 then NegInf else Val (ln x))"

fun cumsum_from :: "real \<Rightarrow> real list \<Rightarrow> real list" where
  "cumsum_from acc [] = []"
| "cumsum_from acc (x # xs) = (acc + x) # cumsum_from (acc + x) xs"

definition cumsum :: "real list \<Rightarrow> real list" where
  "cumsum xs = cumsum_from 0 xs"

text \<open>
  One row of \<^verbatim>\<open>_sample_topp\<close>: the sorted probabilities and their indices, the mask after
  \<^verbatim>\<open>scatter_\<close>, and \<^verbatim>\<open>last_included\<close> (the last entry of the running count of the mask,
  clamped to the row).
\<close>

definition topp_row :: "real \<Rightarrow> real list \<Rightarrow> real list \<times> nat list \<times> bool list \<times> nat" where
  "topp_row p probs =
     (let sorted = sort_desc probs;
          sorted_probs = map fst sorted;
          sorted_indices = map snd sorted;
          cumsum_probs = cumsum sorted_probs;
          msk = map (\<lambda>c. c < p) cumsum_probs;
          last_included = min (length (filter (\<lambda>c. c) msk)) (length msk - 1)
      in (sorted_probs, sorted_indices, msk[last_included := True], last_included))"

definition sample_topp :: "real \<Rightarrow> lprob tensor3 \<Rightarrow> error + (real tensor3 \<times> nat tensor3)" where
  "sample_topp p lprobs =
     (let probs = map (map (map exp_lp)) lprobs;
          rows = map (map (topp_row p)) probs;
          lasts = concat (map (map (\<lambda>(sp, si, m, l). l)) rows)
      in if lasts = [] \<or> \<not> list_all (list_all (\<lambda>r. r \<noteq> [])) probs then Inl RuntimeError
         else
           let max_dim = foldr max lasts 0 in
           Inr (map (map (\<lambda>(sp, si, m, l).
                       map (\<lambda>(x, c). if c then x else 0)
                         (zip (take (max_dim + 1) sp) (take (max_dim + 1) m)))) rows,
                map (map (\<lambda>(sp, si, m, l). take (max_dim + 1) si)) rows))"

text \<open>
  Lines 248 to 257 of \<^verbatim>\<open>Sampling.step\<close>: the probabilities to sample from, the index
  table of the truncation (unassigned without truncation) and \<^verbatim>\<open>logprob\<close>, which only
  the top-k branch assigns and which is \<^verbatim>\<open>None\<close> otherwise.
\<close>

definition truncate_dist ::
  "sampling \<Rightarrow> lprob tensor3 \<Rightarrow>
     error + (real tensor3 \<times> nat tensor3 option \<times> lprob tensor3 option)" where
  "truncate_dist s lprobs =
     (if sampling_topp s > 0 then
        (case sample_topp (sampling_topp s) lprobs of
           Inl e \<Rightarrow> Inl e
         | Inr (probs, top_indices) \<Rightarrow> Inr (probs, Some top_indices, None))
      else if sampling_topk s > 0 then
        (case mapM (mapM (topk (nat (sampling_topk s)))) lprobs of
           Inl e \<Rightarrow> Inl e
         | Inr rs \<Rightarrow>
             Inr (map (map (\<lambda>r. map exp_lp (fst r))) rs, Some (map (map snd) rs),
                  Some (map (map fst) rs)))
      else Inr (map (map (map exp_lp)) lprobs, None, None))"

text \<open>
  \<^verbatim>\<open>torch.multinomial\<close> draws at random. The drawn positions are a parameter of the model;
  the call raises on a row that is empty, has a negative entry or sums to zero.
\<close>

definition multinomial :: "real list list \<Rightarrow> nat tensor2 \<Rightarrow> error + nat tensor2" where
  "multinomial rows draws =
     (if list_all (\<lambda>r. r \<noteq> [] \<and> list_all (\<lambda>x. 0 \<le> x) r \<and> 0 < sum_list r) rows then Inr draws
      else Inl RuntimeError)"

text \<open>\<^verbatim>\<open>torch.gather(t, dim=2, index=idx.unsqueeze(-1))\<close>, with the last dimension removed.\<close>

definition gather_last :: "'a tensor3 \<Rightarrow> nat tensor2 \<Rightarrow> error + 'a tensor2" where
  "gather_last t idx =
     (if length t < length idx then Inl RuntimeError
      else mapM (\<lambda>(m, js).
             if length m < length js then Inl RuntimeError
             else mapM (\<lambda>(row, j). if j < length row then Inr (row ! j) else Inl RuntimeError)
                    (zip m js))
           (zip t idx))"

text \<open>\<^verbatim>\<open>torch.gather(col, dim=1, index=beams)\<close>.\<close>

definition gather_beams :: "'a tensor2 \<Rightarrow> nat tensor2 \<Rightarrow> error + 'a tensor2" where
  "gather_beams col idx =
     (if length col < length idx then Inl RuntimeError
      else mapM (\<lambda>(row, js).
             mapM (\<lambda>j. if j < length row then Inr (row ! j) else Inl RuntimeError) js)
           (zip col idx))"

text \<open>\<^verbatim>\<open>t.expand(bsz, beam_size, -1)\<close> of a tensor with one row per batch element.\<close>

definition expand_beams :: "nat \<Rightarrow> 'a tensor3 \<Rightarrow> 'a tensor3" where
  "expand_beams beam_size t = map (\<lambda>m. replicate beam_size (concat m)) t"

text \<open>
  \<^verbatim>\<open>Sampling.step\<close>. The keyword arguments of the rescoring branch reach the model as
  \<open>rescore\<close> (the truth value of \<^verbatim>\<open>kwargs.get("rescore", "False")\<close>) and \<open>rescorer\<close>, which
  stands for lines 264 to 336: the calls of the external scorers and of the coefficient
  trainer, giving the adjusted probabilities and the index table or an error.
  Without a beam slot the slice \<^verbatim>\<open>lprobs[:, ::beam_size, :]\<close> of the first step raises
  \<^verbatim>\<open>ValueError\<close> (a slice step of zero); at the later steps the first failure is
  \<^verbatim>\<open>logprob.clone()\<close> or, with top-k sampling, \<^verbatim>\<open>probs.view(bsz * beam_size, -1)\<close> before
  the draw.
\<close>

definition Sampling_step ::
  "sampling \<Rightarrow> bool \<Rightarrow>
   (nat \<Rightarrow> lprob tensor3 \<Rightarrow> nat tensor3 \<Rightarrow> error + (real tensor3 \<times> nat tensor3)) \<Rightarrow>
   nat tensor2 \<Rightarrow> nat \<Rightarrow> lprob tensor3 \<Rightarrow> lprob tensor3 \<Rightarrow> error + selection" where
  "Sampling_step s rescore rescorer draws step lprobs scores =
     (if lprobs = [] then Inl RuntimeError
      else
        let bsz = length lprobs; beam_size = length (hd lprobs) in
        if step = 0 \<and> beam_size = 0 then Inl ValueError
        else
          case truncate_dist s (if step = 0 then first_beam lprobs else lprobs) of
            Inl e \<Rightarrow> Inl e
          | Inr (probs, top_indices, logprob) \<Rightarrow>
          (case logprob of
             None \<Rightarrow> Inl AttributeError
           | Some lprobs1 \<Rightarrow>
          (case (if rescore \<and> step > 0 then
                   (case top_indices of
                      None \<Rightarrow> Inl NameError
                    | Some ti \<Rightarrow>
                        (case rescorer step lprobs1 ti of
                           Inl e \<Rightarrow> Inl e
                         | Inr (probs', ti') \<Rightarrow> Inr (probs', Some ti')))
                 else Inr (probs, top_indices)) of
             Inl e \<Rightarrow> Inl e
           | Inr (probs2, top_indices2) \<Rightarrow>
          if beam_size = 0 then Inl RuntimeError
          else
          (case multinomial (if step = 0 then map concat probs2 else concat probs2) draws of
             Inl e \<Rightarrow> Inl e
           | Inr indices_buf \<Rightarrow>
          (case gather_last (if step = 0 then expand_beams beam_size probs2 else probs2)
                  indices_buf of
             Inl e \<Rightarrow> Inl e
           | Inr gathered \<Rightarrow>
          (case (if sampling_topk s > 0 \<or> sampling_topp s > 0 then
                   (case top_indices2 of
                      None \<Rightarrow> Inl NameError
                    | Some ti \<Rightarrow>
                        gather_last (if step = 0 then expand_beams beam_size ti else ti)
                          indices_buf)
                 else Inr indices_buf) of
             Inl e \<Rightarrow> Inl e
           | Inr indices_buf' \<Rightarrow>
               if step = 0 then
                 Inr (map (map log_lp) gathered, indices_buf',
                      replicate bsz (replicate beam_size 0))
               else
                 (let beams_buf = replicate bsz [0..<beam_size] in
                  case select_col (step - 1) scores of
                    Inl e \<Rightarrow> Inl e
                  | Inr col \<Rightarrow>
                      (case gather_beams col beams_buf of
                         Inl e \<Rightarrow> Inl e
                       | Inr hist \<Rightarrow>
                           Inr (map (\<lambda>(xs, hs). map (\<lambda>(x, h). log_lp x + h) (zip xs hs))
                                  (zip gathered hist),
                                indices_buf', beams_buf)))))))))"

section \<open>DiverseSiblingsSearch\<close>

text \<open>
  One batch element of the steps after the first: the top \<open>k\<close> of every beam slot, the
  penalty \<open>(i + 1) * diversity_rate\<close> subtracted at rank \<open>i\<close>, the pool of all slots, its
  top \<open>k\<close>, and the beam and the token of each winner.
\<close>

definition sibling_score :: "real \<Rightarrow> nat \<Rightarrow> real list" where
  "sibling_score diversity_rate k = map (\<lambda>i. real i * diversity_rate) [1..<k + 1]"

definition rank_siblings ::
  "real \<Rightarrow> nat \<Rightarrow> nat \<Rightarrow> lprob list list \<Rightarrow> error + (lprob list \<times> nat list \<times> nat list)" where
  "rank_siblings diversity_rate k vocab_size m =
     (case mapM (topk k) m of
        Inl e \<Rightarrow> Inl e
      | Inr tops \<Rightarrow>
          let s_list = map (\<lambda>(vals, idxs).
                         map (\<lambda>(v, pen). shift v (- pen))
                           (zip vals (sibling_score diversity_rate k))) tops;
              i_list = map (\<lambda>(vals, idxs). map (\<lambda>i. i mod vocab_size) idxs) tops;
              indices = concat i_list
          in case topk k (concat s_list) of
               Inl e \<Rightarrow> Inl e
             | Inr (final_scores, final_indices) \<Rightarrow>
                 Inr (final_scores, map (\<lambda>i. indices ! i) final_indices,
                      map (\<lambda>i. i div k) final_indices))"

text \<open>
  \<^verbatim>\<open>DiverseSiblingsSearch.step\<close>. With a batch element the computation of \<open>k\<close> before the
  test of the step raises nothing, so the first step is \<^verbatim>\<open>BeamSearch.step\<close>. At the later
  steps \<^verbatim>\<open>torch.stack\<close> raises on the empty list of a tensor without beam slots, and on
  an empty vocabulary \<open>k\<close> is \<open>- 1\<close>, which \<^verbatim>\<open>torch.topk\<close> refuses.
\<close>

definition DiverseSiblingsSearch_step ::
  "real \<Rightarrow> nat \<Rightarrow> lprob tensor3 \<Rightarrow> lprob tensor3 \<Rightarrow> error + selection" where
  "DiverseSiblingsSearch_step diversity_rate step lprobs scores =
     (if lprobs = [] then Inl RuntimeError
      else if step = 0 then BeamSearch_step step lprobs scores
      else
        case select_col (step - 1) scores of
          Inl e \<Rightarrow> Inl e
        | Inr col \<Rightarrow>
            (case add_col lprobs col of
               Inl e \<Rightarrow> Inl e
             | Inr lprobs' \<Rightarrow>
                 let beam_size = length (hd lprobs) in
                 if beam_size = 0 then Inl RuntimeError
                 else
                   let vocab_size = length (hd (hd lprobs)) in
                   if vocab_size = 0 then Inl RuntimeError
                   else
                     let k = min (beam_size * 2) (beam_size * vocab_size - 1) in
                     case mapM (rank_siblings diversity_rate k vocab_size) lprobs' of
                       Inl e \<Rightarrow> Inl e
                     | Inr rs \<Rightarrow> Inr (unzip3 rs)))"

section \<open>Closed forms on well-shaped tensors\<close>

text \<open>
  On tensors of matching shapes no broadcast and no error occurs. The functions below
  are what \<open>add_col\<close> and \<open>rank_flat\<close> compute then.
\<close>

definition add_hist :: "lprob tensor3 \<Rightarrow> lprob tensor2 \<Rightarrow> lprob tensor3" where
  "add_hist lprobs col = map (\<lambda>(m, c). map (\<lambda>(row, s). map (\<lambda>x. x + s) row) (zip m c)) (zip lprobs col)"

definition rank_top :: "nat \<Rightarrow> nat \<Rightarrow> lprob list \<Rightarrow> lprob list \<times> nat list \<times> nat list" where
  "rank_top beam_size vocab_size flat =
     (let top = take (min (beam_size * 2) (length flat - 1)) (sort_desc flat)
      in (map fst top, map (\<lambda>p. snd p mod vocab_size) top, map (\<lambda>p. snd p div vocab_size) top))"

text \<open>
  The tensor that \<^verbatim>\<open>BeamSearch.step\<close> ranks: the first beam at step 0, the cumulative
  scores afterwards. \<open>pad_lowest pad t\<close>: within a batch element every entry of the token
  \<open>pad\<close> is below every entry of every other token.
\<close>

definition candidates :: "nat \<Rightarrow> lprob tensor3 \<Rightarrow> lprob tensor3 \<Rightarrow> lprob tensor3" where
  "candidates step lprobs scores =
     (if step = 0 then first_beam lprobs
      else add_hist lprobs (map (map (\<lambda>r. r ! (step - 1))) scores))"

definition pad_lowest :: "nat \<Rightarrow> lprob tensor3 \<Rightarrow> bool" where
  "pad_lowest pad t =
     list_all (\<lambda>m. list_all (\<lambda>r. list_all (\<lambda>r'.
        list_all (\<lambda>v. v \<noteq> pad \<longrightarrow> r ! pad < r' ! v) [0..<length r']) m) m) t"

text \<open>
  The output width of \<^verbatim>\<open>BeamSearch.step\<close> on \<open>K\<close> beams over \<open>V\<close> tokens, and the relation
  between a group of \<^verbatim>\<open>DiverseBeamSearch\<close> and its entry in the lists \<^verbatim>\<open>scores_G\<close>,
  \<^verbatim>\<open>indices_G\<close>, \<^verbatim>\<open>beams_G\<close>: the entry is the result of \<^verbatim>\<open>BeamSearch.step\<close> on the rows of
  the group (with a diversity penalty for the groups after the first), its beams \<open>b\<close>
  replaced by \<open>b * num_groups + g\<close>.
\<close>

definition beam_width :: "nat \<Rightarrow> nat \<Rightarrow> nat \<Rightarrow> nat" where
  "beam_width step K V = (if step = 0 then min (2 * K) (V - 1) else min (2 * K) (K * V - 1))"

definition group_selection ::
  "dbs_search \<Rightarrow> nat \<Rightarrow> lprob tensor3 \<Rightarrow> lprob tensor3 \<Rightarrow> nat \<Rightarrow> selection \<Rightarrow> bool" where
  "group_selection s step lprobs scores g r =
     (\<exists>buf bm.
        BeamSearch_step step
          (if g > 0 then add_penalty (diversity_strength s)
                           (map (strided g (num_groups s)) lprobs) buf
           else map (strided g (num_groups s)) lprobs)
          (if step > 0 then map (strided g (num_groups s)) scores else [])
          = Inr (fst r, fst (snd r), bm)
        \<and> snd (snd r) = map (map (\<lambda>b. b * num_groups s + g)) bm)"

text \<open>
  Two readings of the nucleus of a row of probabilities sorted in descending order, as the
  number \<open>n\<close> of tokens kept. \<open>is_nucleus_exceeding\<close> follows the specification: the
  smallest prefix whose cumulative mass strictly exceeds \<open>p\<close>. \<open>is_nucleus_reaching\<close>: the
  smallest prefix whose cumulative mass is at least \<open>p\<close>.
\<close>

definition is_nucleus_exceeding :: "real \<Rightarrow> real list \<Rightarrow> nat \<Rightarrow> bool" where
  "is_nucleus_exceeding p sorted_probs n =
     (n \<le> length sorted_probs \<and> p < sum_list (take n sorted_probs) \<and>
      (\<forall>m<n. \<not> p < sum_list (take m sorted_probs)))"

definition is_nucleus_reaching :: "real \<Rightarrow> real list \<Rightarrow> nat \<Rightarrow> bool" where
  "is_nucleus_reaching p sorted_probs n =
     (n \<le> length sorted_probs \<and> p \<le> sum_list (take n sorted_probs) \<and>
      (\<forall>m<n. sum_list (take m sorted_probs) < p))"

text \<open>
  The candidates of one beam slot in \<^verbatim>\<open>DiverseSiblingsSearch\<close>, in the words of the
  specification: the scores of the slot's \<open>k\<close> best tokens, the one of rank \<open>i\<close> (from 0)
  lowered by \<open>(i + 1) * diversity_rate\<close>, and the tokens themselves.
\<close>

definition penalized_siblings :: "real \<Rightarrow> nat \<Rightarrow> lprob list \<Rightarrow> lprob list" where
  "penalized_siblings diversity_rate k row =
     map (\<lambda>i. shift (fst (sort_desc row ! i)) (- (real (i + 1) * diversity_rate))) [0..<k]"

definition sibling_tokens :: "nat \<Rightarrow> lprob list \<Rightarrow> nat list" where
  "sibling_tokens k row = map (\<lambda>i. snd (sort_desc row ! i)) [0..<k]"

text \<open>
  The stable merge of two lists by a key, the first list first among equal keys: a stable
  sort of \<open>xs @ ys\<close> is the merge of the sorted \<open>xs\<close> and the sorted \<open>ys\<close>.
\<close>

fun merge_key :: "('a \<Rightarrow> 'k::linorder) \<Rightarrow> 'a list \<Rightarrow> 'a list \<Rightarrow> 'a list" where
  "merge_key f [] ys = ys"
| "merge_key f xs [] = xs"
| "merge_key f (x # xs) (y # ys) =
     (if f x \<le> f y then x # merge_key f xs (y # ys) else y # merge_key f (x # xs) ys)"

section \<open>Auxiliary facts\<close>

lemma mapM_Cons_Inr:
  "mapM f (x # xs) = Inr zs \<longleftrightarrow> (\<exists>y ys. zs = y # ys \<and> f x = Inr y \<and> mapM f xs = Inr ys)"
  by (auto split: sum.splits)

lemma mapM_Inr_iff: "mapM f xs = Inr ys \<longleftrightarrow> list_all2 (\<lambda>x y. f x = Inr y) xs ys"
proof (induction xs arbitrary: ys)
  case Nil
  then show ?case by auto
next
  case (Cons x xs)
  show ?case
    unfolding mapM_Cons_Inr list_all2_Cons1 Cons.IH by blast
qed

lemma mapM_total:
  "(\<And>x. x \<in> set xs \<Longrightarrow> \<exists>y. f x = Inr y) \<Longrightarrow> \<exists>ys. mapM f xs = Inr ys"
proof (induction xs)
  case Nil
  then show ?case by simp
next
  case (Cons x xs)
  then obtain y ys where "f x = Inr y" "mapM f xs = Inr ys"
    by (meson list.set_intros)
  then show ?case by simp
qed

lemma mapM_Inl:
  "x \<in> set xs \<Longrightarrow> f x = Inl e \<Longrightarrow> \<exists>e'. mapM f xs = Inl e'"
  by (induction xs) (auto split: sum.splits)

lemma length_sort_desc [simp]: "length (sort_desc xs) = length xs"
  by (simp add: sort_desc_def)

lemma set_sort_desc: "set (sort_desc xs) = set (zip xs [0..<length xs])"
  by (simp add: sort_desc_def)

lemma sort_desc_snd_less: "p \<in> set (sort_desc xs) \<Longrightarrow> snd p < length xs"
  by (auto simp: set_sort_desc in_set_zip)

lemma sort_desc_fst_nth: "p \<in> set (sort_desc xs) \<Longrightarrow> fst p = xs ! snd p"
  by (auto simp: set_sort_desc in_set_zip)

lemma topk_Inr_iff:
  "topk k xs = Inr (vs, js) \<longleftrightarrow>
     k \<le> length xs \<and> vs = map fst (take k (sort_desc xs)) \<and> js = map snd (take k (sort_desc xs))"
  by (auto simp: topk_def Let_def)

lemma topk_lengths:
  "topk k xs = Inr (vs, js) \<Longrightarrow> length vs = k \<and> length js = k"
  by (auto simp: topk_Inr_iff)

lemma topk_idx_less:
  "topk k xs = Inr (vs, js) \<Longrightarrow> j \<in> set js \<Longrightarrow> j < length xs"
  by (auto simp: topk_Inr_iff dest!: in_set_takeD sort_desc_snd_less)

lemma topk_val_nth:
  assumes "topk k xs = Inr (vs, js)" "i < k"
  shows "vs ! i = xs ! (js ! i)"
proof -
  from assms have k: "k \<le> length xs" and i: "i < length (take k (sort_desc xs))"
    by (auto simp: topk_Inr_iff)
  then have "take k (sort_desc xs) ! i \<in> set (sort_desc xs)"
    by (meson in_set_takeD nth_mem)
  from sort_desc_fst_nth [OF this] assms i show ?thesis
    by (auto simp: topk_Inr_iff)
qed

lemma mapM_eq_map:
  "(\<And>x. x \<in> set xs \<Longrightarrow> f x = Inr (g x)) \<Longrightarrow> mapM f xs = Inr (map g xs)"
  by (induction xs) auto

lemma mapM_length: "mapM f xs = Inr ys \<Longrightarrow> length ys = length xs"
  by (simp add: mapM_Inr_iff list_all2_lengthD)

lemma mapM_nth: "mapM f xs = Inr ys \<Longrightarrow> i < length xs \<Longrightarrow> f (xs ! i) = Inr (ys ! i)"
  by (simp add: mapM_Inr_iff list_all2_conv_all_nth)

lemma is_tensor2_nth: "is_tensor2 B K t \<Longrightarrow> i < B \<Longrightarrow> length (t ! i) = K"
  by (auto simp: is_tensor2_def list_all_length)

lemma is_tensor2_set: "is_tensor2 B K t \<Longrightarrow> r \<in> set t \<Longrightarrow> length r = K"
  by (auto simp: is_tensor2_def list_all_iff)

lemma is_tensor3_set: "is_tensor3 B K V t \<Longrightarrow> m \<in> set t \<Longrightarrow> is_tensor2 K V m"
  by (auto simp: is_tensor3_def list_all_iff)

lemma is_tensor3_length: "is_tensor3 B K V t \<Longrightarrow> length t = B"
  by (simp add: is_tensor3_def)

lemma is_tensor2_length: "is_tensor2 B K t \<Longrightarrow> length t = B"
  by (simp add: is_tensor2_def)

lemma is_tensor3_hd:
  assumes "is_tensor3 B K V t" "0 < B"
  shows "t \<noteq> []" "length (hd t) = K" "0 < K \<Longrightarrow> length (hd (hd t)) = V"
proof -
  from assms show ne: "t \<noteq> []" by (auto simp: is_tensor3_def)
  then have "hd t \<in> set t" by simp
  with assms have h: "is_tensor2 K V (hd t)" by (rule_tac is_tensor3_set)
  then show "length (hd t) = K" by (simp add: is_tensor2_def)
  assume "0 < K"
  with h have "hd (hd t) \<in> set (hd t)" by (auto simp: is_tensor2_def)
  with h show "length (hd (hd t)) = V" by (rule is_tensor2_set)
qed

lemma length_concat_tensor2: "is_tensor2 R V m \<Longrightarrow> length (concat m) = R * V"
proof (induction m arbitrary: R)
  case Nil
  then show ?case by (simp add: is_tensor2_def)
next
  case (Cons r m)
  from Cons.prems have "is_tensor2 (length m) V m" "length r = V" "R = Suc (length m)"
    by (auto simp: is_tensor2_def)
  with Cons.IH [of "length m"] show ?case by simp
qed

lemma bcast_same: "length xs = n \<Longrightarrow> bcast n xs = Inr xs"
  by (simp add: bcast_def)

lemma add_col_tensor:
  assumes "is_tensor3 B K V lprobs" "is_tensor2 B K col"
  shows "add_col lprobs col = Inr (add_hist lprobs col)"
proof -
  have len: "length col = length lprobs"
    using assms by (simp add: is_tensor3_def is_tensor2_def)
  have "mapM (\<lambda>(m, c). case bcast (length m) c of
                  Inl e \<Rightarrow> Inl e
                | Inr cK \<Rightarrow> Inr (map (\<lambda>(row, s). map (\<lambda>x. x + s) row) (zip m cK)))
               (zip lprobs col)
        = Inr (map (\<lambda>(m, c). map (\<lambda>(row, s). map (\<lambda>x. x + s) row) (zip m c)) (zip lprobs col))"
  proof (rule mapM_eq_map)
    fix x assume xin: "x \<in> set (zip lprobs col)"
    obtain m c where x: "x = (m, c)"
      by (cases x)
    from xin have "m \<in> set lprobs" "c \<in> set col"
      unfolding x by (rule set_zip_leftD, rule set_zip_rightD)
    with assms have "length m = K" "length c = K"
      by (auto simp: is_tensor3_def is_tensor2_def list_all_iff)
    then show "(case x of (m, c) \<Rightarrow> case bcast (length m) c of
                  Inl e \<Rightarrow> Inl e
                | Inr cK \<Rightarrow> Inr (map (\<lambda>(row, s). map (\<lambda>x. x + s) row) (zip m cK)))
        = Inr (case x of (m, c) \<Rightarrow> map (\<lambda>(row, s). map (\<lambda>x. x + s) row) (zip m c))"
      by (simp add: x bcast_same)
  qed
  then show ?thesis
    by (simp add: add_col_def bcast_same len add_hist_def)
qed

lemma is_tensor2_iff:
  "is_tensor2 B K t \<longleftrightarrow> length t = B \<and> (\<forall>i<B. length (t ! i) = K)"
  by (auto simp: is_tensor2_def list_all_length)

lemma is_tensor3_iff:
  "is_tensor3 B K V t \<longleftrightarrow>
     length t = B \<and> (\<forall>b<B. length (t ! b) = K \<and> (\<forall>i<K. length (t ! b ! i) = V))"
  by (auto simp: is_tensor3_def is_tensor2_iff list_all_length)

lemma add_hist_tensor:
  assumes "is_tensor3 B K V lprobs" "is_tensor2 B K col"
  shows "is_tensor3 B K V (add_hist lprobs col)"
  using assms by (simp add: add_hist_def is_tensor3_iff is_tensor2_iff)

lemma add_hist_nth:
  assumes "is_tensor3 B K V lprobs" "is_tensor2 B K col" "b < B" "i < K" "v < V"
  shows "add_hist lprobs col ! b ! i ! v = lprobs ! b ! i ! v + col ! b ! i"
  using assms by (simp add: add_hist_def is_tensor3_iff is_tensor2_iff)

lemma select_col_tensor:
  assumes "is_tensor3 B K T scores" "j < T"
  shows "select_col j scores = Inr (map (map (\<lambda>r. r ! j)) scores)"
    and "is_tensor2 B K (map (map (\<lambda>r. r ! j)) scores)"
  using assms by (auto simp: select_col_def is_tensor3_iff is_tensor2_iff list_all_length)

lemma rank_flat_eq:
  "rank_flat bs vs m =
     (if length (concat m) = 0 then Inl RuntimeError else Inr (rank_top bs vs (concat m)))"
proof -
  define flat where "flat = concat m"
  have "(let flat = flat in
      if length flat = 0 then Inl RuntimeError
      else case topk (min (bs * 2) (length flat - 1)) flat of
             Inl e \<Rightarrow> Inl e
           | Inr (vals, idxs) \<Rightarrow>
               Inr (vals, map (\<lambda>i. i mod vs) idxs, map (\<lambda>i. i div vs) idxs))
     = (if length flat = 0 then Inl RuntimeError else Inr (rank_top bs vs flat))"
    by (auto simp add: rank_top_def topk_def Let_def o_def)
  then show ?thesis
    unfolding rank_flat_def flat_def .
qed

lemma rank_top_lengths:
  "length (fst (rank_top bs vs xs)) = min (bs * 2) (length xs - 1) \<and>
   length (fst (snd (rank_top bs vs xs))) = min (bs * 2) (length xs - 1) \<and>
   length (snd (snd (rank_top bs vs xs))) = min (bs * 2) (length xs - 1)"
  by (simp add: rank_top_def Let_def)

lemma first_beam_tensor:
  "is_tensor3 B K V t \<Longrightarrow> 0 < K \<Longrightarrow> is_tensor3 B (Suc 0) V (first_beam t)"
  by (simp add: first_beam_def is_tensor3_iff)

lemma mapM_rank_flat:
  assumes "is_tensor3 B R V t" "0 < R" "0 < V"
  shows "mapM (rank_flat bs vs) t = Inr (map (\<lambda>m. rank_top bs vs (concat m)) t)"
proof (rule mapM_eq_map)
  fix m assume "m \<in> set t"
  with assms have "is_tensor2 R V m" by (rule_tac is_tensor3_set)
  then have "length (concat m) = R * V"
    by (rule length_concat_tensor2)
  with assms show "rank_flat bs vs m = Inr (rank_top bs vs (concat m))"
    by (simp add: rank_flat_eq)
qed

lemma BeamSearch_step_first:
  assumes "is_tensor3 B K V lprobs" "0 < B" "0 < K" "0 < V"
  shows "BeamSearch_step 0 lprobs scores = Inr (unzip3 (map (\<lambda>m. rank_top K V (concat m)) (first_beam lprobs)))"
proof -
  from assms have "lprobs \<noteq> []" "length (hd lprobs) = K" "length (hd (hd lprobs)) = V"
    by (simp_all add: is_tensor3_hd)
  moreover from assms have "mapM (rank_flat K V) (first_beam lprobs)
      = Inr (map (\<lambda>m. rank_top K V (concat m)) (first_beam lprobs))"
    by (intro mapM_rank_flat [of B "Suc 0" V]) (simp_all add: first_beam_tensor)
  ultimately show ?thesis using assms
    by (simp add: BeamSearch_step_def)
qed

lemma BeamSearch_step_later:
  assumes "is_tensor3 B K V lprobs" "0 < B" "0 < K" "0 < V"
    and "is_tensor3 B K T scores" "0 < step" "step \<le> T"
  shows "BeamSearch_step step lprobs scores =
     Inr (unzip3 (map (\<lambda>m. rank_top K V (concat m)) (add_hist lprobs (map (map (\<lambda>r. r ! (step - 1))) scores))))"
proof -
  let ?col = "map (map (\<lambda>r. r ! (step - 1))) scores"
  from assms have hd: "lprobs \<noteq> []" "length (hd lprobs) = K" "length (hd (hd lprobs)) = V"
    by (simp_all add: is_tensor3_hd)
  from assms have sel: "select_col (step - 1) scores = Inr ?col" and col: "is_tensor2 B K ?col"
    by (simp_all add: select_col_tensor)
  from assms col have add: "add_col lprobs ?col = Inr (add_hist lprobs ?col)"
    by (simp add: add_col_tensor)
  from assms col have "is_tensor3 B K V (add_hist lprobs ?col)"
    by (simp add: add_hist_tensor)
  with assms have "mapM (rank_flat K V) (add_hist lprobs ?col)
      = Inr (map (\<lambda>m. rank_top K V (concat m)) (add_hist lprobs ?col))"
    by (intro mapM_rank_flat [of B K V]) simp_all
  with hd sel add assms show ?thesis
    by (simp add: BeamSearch_step_def)
qed

lemma unzip3_map_tensor:
  assumes "\<And>m. m \<in> set t \<Longrightarrow> length (fst (f m)) = w \<and> length (fst (snd (f m))) = w
      \<and> length (snd (snd (f m))) = w"
  shows "is_tensor2 (length t) w (fst (unzip3 (map f t)))"
    "is_tensor2 (length t) w (fst (snd (unzip3 (map f t))))"
    "is_tensor2 (length t) w (snd (snd (unzip3 (map f t))))"
  using assms by (simp_all add: unzip3_def is_tensor2_def list_all_iff)

lemma assign_where_Vector:
  assumes "is_tensor3 B K V lprobs" "length xs = B" "e < V"
  shows "\<exists>lp'. assign_where cond a b (Vector xs) e v lprobs = Inr lp' \<and> is_tensor3 B K V lp' \<and>
     (\<forall>n<B. \<forall>i<K. \<forall>j<V. lp' ! n ! i ! j =
        (if j = e \<and> cond (a * of_int (xs ! n) + b) then v else lprobs ! n ! i ! j))"
proof -
  let ?lp = "map (\<lambda>(m, c). if c then map (\<lambda>row. row[e := v]) m else m)
      (zip lprobs (map (\<lambda>l. cond (a * of_int l + b)) xs))"
  have ok: "list_all (list_all (\<lambda>row. e < length row)) lprobs"
    using assms by (simp add: is_tensor3_iff list_all_length)
  have len: "length lprobs = B"
    using assms by (simp add: is_tensor3_iff)
  have "assign_where cond a b (Vector xs) e v lprobs = Inr ?lp"
    using ok len assms by (simp add: assign_where_def assign_masked_def)
  moreover have "is_tensor3 B K V ?lp"
    using assms by (simp add: is_tensor3_iff)
  moreover have "\<forall>n<B. \<forall>i<K. \<forall>j<V. ?lp ! n ! i ! j =
        (if j = e \<and> cond (a * of_int (xs ! n) + b) then v else lprobs ! n ! i ! j)"
    using assms by (simp add: is_tensor3_iff nth_list_update)
  ultimately show ?thesis by blast
qed


lemma sort_desc_concat_first_div:
  assumes "p \<in> set (take k (sort_desc xs))" "length xs = V"
  shows "snd p div V = 0"
proof -
  from assms(1) have "p \<in> set (sort_desc xs)" by (rule in_set_takeD)
  then have "snd p < length xs" by (rule sort_desc_snd_less)
  with assms(2) show ?thesis by simp
qed

lemma rank_top_first_beams:
  assumes "length xs = V"
  shows "list_all (\<lambda>b. b = 0) (snd (snd (rank_top K V xs)))"
  using assms sort_desc_concat_first_div [of _ _ xs V]
  by (auto simp: rank_top_def Let_def list_all_iff)

lemma BeamSearch_step_Inr_first:
  assumes "BeamSearch_step 0 lprobs scores = Inr r" "is_tensor3 B K V lprobs"
  shows "0 < B \<and> 0 < K \<and> 0 < V"
proof -
  from assms have B: "0 < B"
    by (auto simp: BeamSearch_step_def is_tensor3_def)
  with assms have K: "0 < K"
    by (cases "K = 0") (auto simp: BeamSearch_step_def is_tensor3_hd)
  have "0 < V"
  proof (rule ccontr)
    assume "\<not> 0 < V"
    then have V: "V = 0" by simp
    from assms B K have fb: "is_tensor3 B (Suc 0) V (first_beam lprobs)"
      by (simp add: first_beam_tensor)
    then have "first_beam lprobs \<noteq> []" using B by (auto simp: is_tensor3_def)
    then obtain m where m: "m \<in> set (first_beam lprobs)"
      by (meson last_in_set)
    with fb have "is_tensor2 (Suc 0) V m" by (rule_tac is_tensor3_set)
    then have "length (concat m) = 0"
      using V by (simp add: length_concat_tensor2)
    then have "rank_flat K V m = Inl RuntimeError"
      by (simp add: rank_flat_eq)
    from mapM_Inl [of m "first_beam lprobs" "rank_flat K V", OF m this] obtain e where
      "mapM (rank_flat K V) (first_beam lprobs) = Inl e" by blast
    with assms B K show False
      by (simp add: BeamSearch_step_def is_tensor3_hd)
  qed
  with B K show ?thesis by simp
qed

lemma BeamSearch_step_first_beams:
  assumes "BeamSearch_step 0 lprobs scores = Inr (S, I, Bm)" "is_tensor3 B K V lprobs"
  shows "list_all (list_all (\<lambda>b. b = 0)) Bm"
proof -
  from BeamSearch_step_Inr_first [OF assms] have pos: "0 < B" "0 < K" "0 < V"
    by simp_all
  with assms have
    Bm: "Bm = map (\<lambda>m. snd (snd (rank_top K V (concat m)))) (first_beam lprobs)"
    by (simp add: BeamSearch_step_first unzip3_def o_def)
  have fb: "is_tensor3 B (Suc 0) V (first_beam lprobs)"
    using assms pos by (simp add: first_beam_tensor)
  have "list_all (\<lambda>b. b = 0) (snd (snd (rank_top K V (concat m))))"
    if "m \<in> set (first_beam lprobs)" for m
  proof -
    from fb that have "is_tensor2 (Suc 0) V m" by (rule is_tensor3_set)
    then have "length (concat m) = V"
      by (simp add: length_concat_tensor2)
    then show ?thesis by (rule rank_top_first_beams)
  qed
  then show ?thesis
    unfolding Bm by (simp add: list_all_iff)
qed

lemma Sampling_step_first_beams:
  assumes "Sampling_step s rescore rescorer draws 0 lprobs scores = Inr (S, I, Bm)"
  shows "Bm = replicate (length lprobs) (replicate (length (hd lprobs)) 0)"
  using assms
  by (simp add: Sampling_step_def Let_def
      split: if_splits sum.splits option.splits prod.splits)

lemma DiverseSiblingsSearch_step_first:
  assumes "DiverseSiblingsSearch_step rate 0 lprobs scores = Inr r"
  shows "BeamSearch_step 0 lprobs scores = Inr r"
  using assms
  by (simp add: DiverseSiblingsSearch_step_def Let_def split: if_splits)

lemma sorted_sort_desc: "sorted (map (\<lambda>p. Down (fst p)) (sort_desc xs))"
  by (simp add: sort_desc_def)

lemma mset_sort_desc: "mset (sort_desc xs) = mset (zip xs [0..<length xs])"
  by (simp add: sort_desc_def)

lemma sort_desc_nth_mono:
  assumes "a \<le> c" "c < length xs"
  shows "fst (sort_desc xs ! c) \<le> fst (sort_desc xs ! a)"
proof -
  have "map (\<lambda>p. Down (fst p)) (sort_desc xs) ! a \<le> map (\<lambda>p. Down (fst p)) (sort_desc xs) ! c"
    using assms by (intro sorted_nth_mono sorted_sort_desc) simp_all
  with assms show ?thesis by simp
qed

lemma map_snd_filter: "map snd (filter (\<lambda>q. P (snd q)) zs) = filter P (map snd zs)"
  by (induction zs) auto

lemma length_filter_sort_desc:
  "length (filter (\<lambda>q. P (snd q)) (sort_desc xs)) = length (filter P [0..<length xs])"
proof -
  have "length (filter (\<lambda>q. P (snd q)) (sort_desc xs))
      = size (filter_mset (\<lambda>q. P (snd q)) (mset (sort_desc xs)))"
    by (metis mset_filter size_mset)
  also have "\<dots> = length (filter (\<lambda>q. P (snd q)) (zip xs [0..<length xs]))"
    by (metis mset_sort_desc mset_filter size_mset)
  also have "\<dots> = length (map snd (filter (\<lambda>q. P (snd q)) (zip xs [0..<length xs])))"
    by simp
  also have "\<dots> = length (filter P (map snd (zip xs [0..<length xs])))"
    by (simp only: map_snd_filter)
  finally show ?thesis by simp
qed

lemma top_excludes_lowest:
  fixes xs :: "'a::linorder list"
  assumes low: "\<And>i j. i < length xs \<Longrightarrow> j < length xs \<Longrightarrow> Q i \<Longrightarrow> \<not> Q j \<Longrightarrow> xs ! i < xs ! j"
    and cnt: "k \<le> length (filter (\<lambda>j. \<not> Q j) [0..<length xs])"
    and p: "p \<in> set (take k (sort_desc xs))"
  shows "\<not> Q (snd p)"
proof
  assume Qp: "Q (snd p)"
  let ?s = "sort_desc xs"
  from p obtain a where a: "a < k" "a < length xs" "?s ! a = p"
    by (auto simp: in_set_conv_nth)
  have pin: "p \<in> set ?s" using p by (rule in_set_takeD)
  have none: "filter (\<lambda>q. \<not> Q (snd q)) (drop a ?s) = []"
  proof (rule ccontr)
    assume "filter (\<lambda>q. \<not> Q (snd q)) (drop a ?s) \<noteq> []"
    then obtain q where q: "q \<in> set (drop a ?s)" "\<not> Q (snd q)"
      by (metis (mono_tags, lifting) filter_False)
    then obtain d where d: "d < length xs - a" "drop a ?s ! d = q"
      by (auto simp: in_set_conv_nth)
    then have qn: "?s ! (a + d) = q" by simp
    have "fst q \<le> fst p"
      using sort_desc_nth_mono [of a "a + d" xs] d qn a by simp
    moreover have qin: "q \<in> set ?s" using q(1) by (rule in_set_dropD)
    have "xs ! snd p < xs ! snd q"
      using low [of "snd p" "snd q"] Qp q(2) pin qin by (simp add: sort_desc_snd_less)
    then have "fst p < fst q"
      using pin qin by (simp add: sort_desc_fst_nth)
    ultimately show False by simp
  qed
  have "length (filter (\<lambda>q. \<not> Q (snd q)) ?s)
      = length (filter (\<lambda>q. \<not> Q (snd q)) (take a ?s @ drop a ?s))"
    by simp
  also have "\<dots> = length (filter (\<lambda>q. \<not> Q (snd q)) (take a ?s))"
    unfolding filter_append none by simp
  also have "\<dots> \<le> a"
    by (metis length_filter_le length_take min.cobounded2 order_trans)
  finally have "length (filter (\<lambda>j. \<not> Q j) [0..<length xs]) \<le> a"
    using length_filter_sort_desc [of "\<lambda>j. \<not> Q j" xs] by simp
  with cnt a(1) show False by simp
qed

lemma count_ne_upt: "pad < V \<Longrightarrow> length (filter (\<lambda>j. j \<noteq> pad) [0..<V]) = V - 1"
proof (induction V)
  case 0
  then show ?case by simp
next
  case (Suc V)
  show ?case
  proof (cases "pad = V")
    case True
    then have "filter (\<lambda>j. j \<noteq> pad) [0..<V] = [0..<V]"
      by (auto intro: filter_True)
    with True show ?thesis by simp
  next
    case False
    with Suc show ?thesis by simp
  qed
qed

lemma count_nonpad:
  assumes "pad < V"
  shows "length (filter (\<lambda>j. j mod V \<noteq> pad) [0..<R * V]) = R * (V - 1)"
proof (induction R)
  case 0
  then show ?case by simp
next
  case (Suc R)
  have split: "[0..<Suc R * V] = [0..<R * V] @ map (\<lambda>j. j + R * V) [0..<V]"
    using upt_add_eq_append [of 0 "R * V" V] map_add_upt [of "R * V" V]
    by (simp add: add.commute)
  have "filter (\<lambda>j. j mod V \<noteq> pad) (map (\<lambda>j. j + R * V) [0..<V])
      = map (\<lambda>j. j + R * V) (filter (\<lambda>j. j \<noteq> pad) [0..<V])"
  proof -
    have "filter (\<lambda>j. j mod V \<noteq> pad) (map (\<lambda>j. j + R * V) [0..<V])
        = map (\<lambda>j. j + R * V) (filter (\<lambda>j. (j + R * V) mod V \<noteq> pad) [0..<V])"
      by (simp only: filter_map o_def)
    also have "filter (\<lambda>j. (j + R * V) mod V \<noteq> pad) [0..<V] = filter (\<lambda>j. j \<noteq> pad) [0..<V]"
      by (rule filter_cong) simp_all
    finally show ?thesis .
  qed
  then have "length (filter (\<lambda>j. j mod V \<noteq> pad) (map (\<lambda>j. j + R * V) [0..<V])) = V - 1"
    using assms by (simp add: count_ne_upt)
  with Suc show ?case
    unfolding split filter_append by simp
qed

lemma concat_tensor2_nth:
  "is_tensor2 R V m \<Longrightarrow> j < R * V \<Longrightarrow> concat m ! j = m ! (j div V) ! (j mod V)"
proof (induction m arbitrary: R j)
  case Nil
  then show ?case by (simp add: is_tensor2_def)
next
  case (Cons r m)
  from Cons.prems have t: "is_tensor2 (length m) V m" and r: "length r = V"
    and R: "R = Suc (length m)"
    by (auto simp: is_tensor2_def)
  show ?case
  proof (cases "j < V")
    case True
    with r show ?thesis by (simp add: nth_append)
  next
    case False
    then have "j - V < length m * V" using Cons.prems(2) R by auto
    moreover have "0 < V" using Cons.prems(2) by (cases V) simp_all
    ultimately show ?thesis
      using Cons.IH [OF t, of "j - V"] False r
      by (simp add: nth_append le_div_geq le_mod_geq)
  qed
qed

lemma candidates_tensor:
  assumes "is_tensor3 B K V lprobs" "0 < K"
    and "0 < step \<Longrightarrow> is_tensor3 B K T scores \<and> step \<le> T"
  shows "is_tensor3 B (if step = 0 then Suc 0 else K) V (candidates step lprobs scores)"
  using assms
  by (auto simp: candidates_def first_beam_tensor add_hist_tensor select_col_tensor)

lemma BeamSearch_step_candidates:
  assumes "is_tensor3 B K V lprobs" "0 < B" "0 < K" "0 < V"
    and "0 < step \<Longrightarrow> is_tensor3 B K T scores \<and> step \<le> T"
  shows "BeamSearch_step step lprobs scores =
     Inr (unzip3 (map (\<lambda>m. rank_top K V (concat m)) (candidates step lprobs scores)))"
proof (cases "step = 0")
  case True
  with assms show ?thesis
    by (simp add: candidates_def BeamSearch_step_first)
next
  case False
  with assms have "is_tensor3 B K T scores" "0 < step" "step \<le> T"
    by simp_all
  from BeamSearch_step_later [OF assms(1-4) this] False show ?thesis
    by (simp only: candidates_def if_False)
qed

lemma pad_lowestD:
  assumes "pad_lowest pad t" "m \<in> set t" "i < length m" "i' < length m" "v < length (m ! i')"
    "v \<noteq> pad"
  shows "m ! i ! pad < m ! i' ! v"
  using assms by (auto simp: pad_lowest_def list_all_iff)

lemma BeamSearch_step_shape:
  assumes "is_tensor3 B K V lprobs" "0 < B" "0 < K" "0 < V"
    and "0 < step \<Longrightarrow> is_tensor3 B K T scores \<and> step \<le> T"
  shows "\<exists>S I Bm. BeamSearch_step step lprobs scores = Inr (S, I, Bm) \<and>
     (let w = (if step = 0 then min (2 * K) (V - 1) else min (2 * K) (K * V - 1)) in
        is_tensor2 B w S \<and> is_tensor2 B w I \<and> is_tensor2 B w Bm \<and>
        w < (if step = 0 then V else K * V))"
proof (cases "step = 0")
  case True
  let ?r = "unzip3 (map (\<lambda>m. rank_top K V (concat m)) (first_beam lprobs))"
  have fb: "is_tensor3 B (Suc 0) V (first_beam lprobs)"
    using assms by (simp add: first_beam_tensor)
  have w: "length (fst (rank_top K V (concat m))) = min (2 * K) (V - 1) \<and>
           length (fst (snd (rank_top K V (concat m)))) = min (2 * K) (V - 1) \<and>
           length (snd (snd (rank_top K V (concat m)))) = min (2 * K) (V - 1)"
    if "m \<in> set (first_beam lprobs)" for m
  proof -
    from fb that have m: "is_tensor2 (Suc 0) V m" by (rule is_tensor3_set)
    then have "length (concat m) = V"
      by (simp add: length_concat_tensor2)
    then show ?thesis
      using rank_top_lengths [of K V "concat m"] by (simp add: mult.commute)
  qed
  have len: "length (first_beam lprobs) = B"
    using fb by (rule is_tensor3_length)
  obtain S I Bm where r: "?r = (S, I, Bm)"
    by (metis prod_cases3)
  have "is_tensor2 B (min (2 * K) (V - 1)) (fst ?r)"
    "is_tensor2 B (min (2 * K) (V - 1)) (fst (snd ?r))"
    "is_tensor2 B (min (2 * K) (V - 1)) (snd (snd ?r))"
    using unzip3_map_tensor [of "first_beam lprobs" "\<lambda>m. rank_top K V (concat m)", OF w] len by simp_all
  moreover have "BeamSearch_step step lprobs scores = Inr ?r"
    using assms True by (simp add: BeamSearch_step_first)
  moreover have "min (2 * K) (V - 1) < V"
    using assms by simp
  ultimately show ?thesis using True
    unfolding r by (simp add: Let_def)
next
  case False
  let ?lp = "add_hist lprobs (map (map (\<lambda>r. r ! (step - 1))) scores)"
  let ?r = "unzip3 (map (\<lambda>m. rank_top K V (concat m)) ?lp)"
  from False assms have sc: "is_tensor3 B K T scores" "step \<le> T" "0 < step"
    by simp_all
  have lp: "is_tensor3 B K V ?lp"
    using assms sc by (simp add: add_hist_tensor select_col_tensor)
  have pos: "0 < K * V" using assms by simp
  have w: "length (fst (rank_top K V (concat m))) = min (2 * K) (K * V - 1) \<and>
           length (fst (snd (rank_top K V (concat m)))) = min (2 * K) (K * V - 1) \<and>
           length (snd (snd (rank_top K V (concat m)))) = min (2 * K) (K * V - 1)"
    if "m \<in> set ?lp" for m
  proof -
    from lp that have m: "is_tensor2 K V m" by (rule is_tensor3_set)
    then have "length (concat m) = K * V"
      by (simp add: length_concat_tensor2)
    then show ?thesis
      using rank_top_lengths [of K V "concat m"] by (simp add: mult.commute)
  qed
  have len: "length ?lp = B"
    using lp by (rule is_tensor3_length)
  obtain S I Bm where r: "?r = (S, I, Bm)"
    by (metis prod_cases3)
  have "is_tensor2 B (min (2 * K) (K * V - 1)) (fst ?r)"
    "is_tensor2 B (min (2 * K) (K * V - 1)) (fst (snd ?r))"
    "is_tensor2 B (min (2 * K) (K * V - 1)) (snd (snd ?r))"
    using unzip3_map_tensor [of ?lp "\<lambda>m. rank_top K V (concat m)", OF w] len by simp_all
  moreover have "BeamSearch_step step lprobs scores = Inr ?r"
    using assms sc by (simp add: BeamSearch_step_later)
  moreover have "min (2 * K) (K * V - 1) < K * V"
    using pos by (simp add: min_less_iff_disj)
  ultimately show ?thesis using False
    unfolding r by (simp add: Let_def)
qed

lemma strided_length:
  assumes "0 < G" "length xs mod G = 0" "g < G"
  shows "length (strided g G xs) = length xs div G"
proof -
  from assms obtain q where q: "length xs = q * G"
    by (metis mod_0_imp_dvd dvd_def mult.commute)
  show ?thesis
  proof (cases q)
    case 0
    with q assms show ?thesis by (simp add: strided_def)
  next
    case (Suc q')
    define r where "r = G - 1 - g"
    have r: "r < G" using assms by (simp add: r_def)
    have ge: "G \<le> q * G" using Suc by simp
    have "q * G - g + G - 1 = r + q * G"
      unfolding r_def using ge assms(3) by linarith
    moreover have "(r + q * G) div G = q"
      using r by simp
    ultimately have "(q * G - g + G - 1) div G = q"
      by simp
    with q assms show ?thesis by (simp add: strided_def)
  qed
qed

lemma strided_nth:
  assumes "0 < G" "length xs mod G = 0" "g < G" "j < length xs div G"
  shows "strided g G xs ! j = xs ! (g + j * G)" "g + j * G < length xs"
proof -
  from assms show "strided g G xs ! j = xs ! (g + j * G)"
    using strided_length [OF assms(1-3)] by (simp add: strided_def)
  from assms obtain q where q: "length xs = q * G"
    by (metis mod_0_imp_dvd dvd_def mult.commute)
  with assms have "j < q" by simp
  then have "Suc j * G \<le> q * G" by (intro mult_le_mono1) simp
  with assms q show "g + j * G < length xs" by simp
qed

lemma strided_tensor3:
  assumes "is_tensor3 B K V t" "0 < G" "K mod G = 0" "g < G"
  shows "is_tensor3 B (K div G) V (map (strided g G) t)"
proof -
  have "length (strided g G (t ! b)) = K div G \<and>
        (\<forall>i<K div G. length (strided g G (t ! b) ! i) = V)" if "b < B" for b
  proof -
    from assms that have len: "length (t ! b) = K" and rows: "\<forall>i<K. length (t ! b ! i) = V"
      by (simp_all add: is_tensor3_iff)
    have m: "length (t ! b) mod G = 0" using len assms by simp
    have "length (strided g G (t ! b) ! i) = V" if "i < K div G" for i
      using strided_nth [OF assms(2) m assms(4), of i] that len rows by simp
    then show ?thesis
      using strided_length [OF assms(2) m assms(4)] len by simp
  qed
  with assms show ?thesis
    by (simp add: is_tensor3_iff)
qed

lemma scatter_add_length [simp]: "length (scatter_add buf js) = length buf"
  by (induction js arbitrary: buf) simp_all

lemma add_penalty_tensor:
  assumes "is_tensor3 B R V lp" "is_tensor2 B V buf"
  shows "is_tensor3 B R V (add_penalty c lp buf)"
  using assms by (simp add: add_penalty_def is_tensor3_iff is_tensor2_iff)

lemma scatter_tensor:
  assumes "is_tensor2 B V buf" "length I = B"
  shows "is_tensor2 B V (map (\<lambda>(d, js). scatter_add d js) (zip buf I))"
  using assms by (simp add: is_tensor2_iff)

lemma remap_tensor:
  "is_tensor2 B w bm \<Longrightarrow> is_tensor2 B w (map (map f) bm)"
  by (simp add: is_tensor2_iff)

lemma dbs_groups_ok:
  assumes t: "is_tensor3 B K V lprobs" and pos: "0 < B" "0 < K" "0 < V"
    and G: "0 < num_groups s" "K mod num_groups s = 0"
    and sc: "0 < step \<Longrightarrow> is_tensor3 B K T scores \<and> step \<le> T"
    and gs: "\<forall>g\<in>set gs. g < num_groups s" and buf: "is_tensor2 B V buf"
  shows "\<exists>rs. dbs_groups s step lprobs scores gs buf = Inr rs \<and> length rs = length gs \<and>
     (\<forall>n<length gs. group_selection s step lprobs scores (gs ! n) (rs ! n) \<and>
        is_tensor2 B (beam_width step (K div num_groups s) V) (fst (rs ! n)) \<and>
        is_tensor2 B (beam_width step (K div num_groups s) V) (fst (snd (rs ! n))) \<and>
        is_tensor2 B (beam_width step (K div num_groups s) V) (snd (snd (rs ! n))))"
  using gs buf
proof (induction gs arbitrary: buf)
  case Nil
  then show ?case by simp
next
  case (Cons g gs)
  let ?G = "num_groups s"
  let ?w = "beam_width step (K div ?G) V"
  let ?lg = "map (strided g ?G) lprobs"
  let ?lp = "if g > 0 then add_penalty (diversity_strength s) ?lg buf else ?lg"
  let ?sg = "if step > 0 then map (strided g ?G) scores else []"
  from Cons.prems have g: "g < ?G" and gs: "\<forall>g\<in>set gs. g < ?G" by simp_all
  have lg: "is_tensor3 B (K div ?G) V ?lg"
    using t G g by (intro strided_tensor3)
  then have lp: "is_tensor3 B (K div ?G) V ?lp"
    using Cons.prems(2) by (cases "0 < g") (simp_all add: add_penalty_tensor)
  have Kg: "0 < K div ?G"
    using pos G by (metis div_greater_zero_iff dvd_imp_le mod_0_imp_dvd)
  have sg: "0 < step \<Longrightarrow> is_tensor3 B (K div ?G) T ?sg \<and> step \<le> T"
    using sc G g by (simp add: strided_tensor3)
  from BeamSearch_step_shape [OF lp pos(1) Kg pos(3) sg] obtain S I bm where
    bs: "BeamSearch_step step ?lp ?sg = Inr (S, I, bm)" and
    sh: "is_tensor2 B ?w S" "is_tensor2 B ?w I" "is_tensor2 B ?w bm"
    by (auto simp: beam_width_def Let_def)
  let ?buf' = "map (\<lambda>(d, js). scatter_add d js) (zip buf I)"
  have "is_tensor2 B V ?buf'"
    using Cons.prems(2) sh(2) by (intro scatter_tensor) (simp_all add: is_tensor2_iff)
  from Cons.IH [OF gs this] obtain rs where
    rs: "dbs_groups s step lprobs scores gs ?buf' = Inr rs" "length rs = length gs"
      "\<forall>n<length gs. group_selection s step lprobs scores (gs ! n) (rs ! n) \<and>
        is_tensor2 B ?w (fst (rs ! n)) \<and> is_tensor2 B ?w (fst (snd (rs ! n))) \<and>
        is_tensor2 B ?w (snd (snd (rs ! n)))"
    by blast
  let ?r = "(S, I, map (map (\<lambda>b. b * ?G + g)) bm)"
  have step: "dbs_groups s step lprobs scores (g # gs) buf = Inr (?r # rs)"
    using bs rs(1) by (simp add: Let_def)
  have sel: "group_selection s step lprobs scores g ?r"
    unfolding group_selection_def fst_conv snd_conv
    by (rule exI [of _ buf], rule exI [of _ bm]) (simp add: bs)
  have shr: "is_tensor2 B ?w (snd (snd ?r))"
    using sh(3) by (simp add: remap_tensor)
  have "group_selection s step lprobs scores ((g # gs) ! n) ((?r # rs) ! n) \<and>
        is_tensor2 B ?w (fst ((?r # rs) ! n)) \<and> is_tensor2 B ?w (fst (snd ((?r # rs) ! n))) \<and>
        is_tensor2 B ?w (snd (snd ((?r # rs) ! n)))" if "n < length (g # gs)" for n
  proof (cases n)
    case 0
    with sel sh shr show ?thesis by simp
  next
    case (Suc n')
    with that rs(3) show ?thesis by simp
  qed
  with step rs(2) show ?case
    by (intro exI [of _ "?r # rs"]) simp
qed

lemma div_mod_interleave:
  "g < (G::nat) \<Longrightarrow> (j * G + g) div G = j \<and> (j * G + g) mod G = g"
  by (simp add: add.commute)

lemma interleave_row:
  assumes "rows \<noteq> []" "\<forall>r\<in>set rows. length r = w"
  shows "length (concat (transpose rows)) = length rows * w"
    and "g < length rows \<Longrightarrow> j < w \<Longrightarrow>
         concat (transpose rows) ! (j * length rows + g) = rows ! g ! j"
proof -
  let ?G = "length rows"
  have tr: "transpose rows = map (\<lambda>i. map (\<lambda>j. rows ! j ! i) [0..<?G]) [0..<w]"
    using assms by (intro transpose_rectangle) simp_all
  have t2: "is_tensor2 w ?G (transpose rows)"
    unfolding tr by (simp add: is_tensor2_iff)
  from length_concat_tensor2 [OF t2] show "length (concat (transpose rows)) = ?G * w"
    by (simp add: mult.commute)
  assume gj: "g < ?G" "j < w"
  then have "Suc j * ?G \<le> w * ?G"
    by (intro mult_le_mono1) simp
  with gj have "j * ?G + g < w * ?G"
    by simp
  moreover have "(j * ?G + g) div ?G = j" "(j * ?G + g) mod ?G = g"
    using div_mod_interleave [OF gj(1), of j] by simp_all
  ultimately show "concat (transpose rows) ! (j * ?G + g) = rows ! g ! j"
    using concat_tensor2_nth [OF t2, of "j * ?G + g"] gj by (simp add: tr)
qed

lemma interleave_tensor:
  assumes "ts \<noteq> []" "\<forall>t\<in>set ts. is_tensor2 B w t"
  shows "is_tensor2 B (length ts * w) (interleave ts)"
    and "g < length ts \<Longrightarrow> b < B \<Longrightarrow> j < w \<Longrightarrow>
         interleave ts ! b ! (j * length ts + g) = ts ! g ! b ! j"
proof -
  from assms have hd: "length (hd ts) = B"
    by (simp add: is_tensor2_iff)
  have rows: "map (\<lambda>t. t ! b) ts \<noteq> [] \<and> (\<forall>r\<in>set (map (\<lambda>t. t ! b) ts). length r = w)"
    if "b < B" for b
    using assms that by (auto simp: is_tensor2_iff)
  show "is_tensor2 B (length ts * w) (interleave ts)"
    using assms(1) hd rows interleave_row(1) [of "map (\<lambda>t. t ! _) ts" w]
    by (simp add: interleave_def is_tensor2_iff)
  assume "g < length ts" "b < B" "j < w"
  then show "interleave ts ! b ! (j * length ts + g) = ts ! g ! b ! j"
    using assms(1) hd rows [of b] interleave_row(2) [of "map (\<lambda>t. t ! b) ts" w g j]
    by (simp add: interleave_def)
qed

lemma length_cumsum_from [simp]: "length (cumsum_from acc xs) = length xs"
  by (induction xs arbitrary: acc) simp_all

lemma cumsum_from_nth:
  "j < length xs \<Longrightarrow> cumsum_from acc xs ! j = acc + sum_list (take (Suc j) xs)"
proof (induction xs arbitrary: acc j)
  case Nil
  then show ?case by simp
next
  case (Cons x xs)
  then show ?case by (cases j) (simp_all add: add.assoc)
qed

lemma cumsum_nth: "j < length xs \<Longrightarrow> cumsum xs ! j = sum_list (take (Suc j) xs)"
  by (simp add: cumsum_def cumsum_from_nth)

lemma length_cumsum [simp]: "length (cumsum xs) = length xs"
  by (simp add: cumsum_def)

lemma sum_list_take_mono:
  assumes "\<forall>x\<in>set xs. (0::real) \<le> x" "m \<le> n"
  shows "sum_list (take m xs) \<le> sum_list (take n xs)"
proof -
  have "take n xs = take m xs @ take (n - m) (drop m xs)"
    using assms(2) by (metis le_add_diff_inverse take_add)
  moreover have "0 \<le> sum_list (take (n - m) (drop m xs))"
    using assms(1) by (intro sum_list_nonneg) (auto dest: in_set_takeD in_set_dropD)
  ultimately show ?thesis by simp
qed

lemma sorted_cumsum:
  assumes "\<forall>x\<in>set xs. (0::real) \<le> x"
  shows "sorted (cumsum xs)"
  unfolding sorted_iff_nth_mono
  using assms by (auto simp: cumsum_nth intro!: sum_list_take_mono)

lemma filter_sorted_less:
  "sorted xs \<Longrightarrow> filter (\<lambda>c. c < (p::real)) xs = takeWhile (\<lambda>c. c < p) xs"
proof (induction xs)
  case Nil
  then show ?case by simp
next
  case (Cons x xs)
  show ?case
  proof (cases "x < p")
    case True
    with Cons show ?thesis by simp
  next
    case False
    with Cons.prems have "\<forall>y\<in>set xs. \<not> y < p" by auto
    then have "filter (\<lambda>c. c < p) xs = []" by (simp add: filter_empty_conv)
    with False show ?thesis by simp
  qed
qed

lemma sorted_less_prefix:
  assumes "sorted xs" "j < length xs"
  shows "xs ! j < (p::real) \<longleftrightarrow> j < length (filter (\<lambda>c. c < p) xs)"
proof -
  let ?t = "takeWhile (\<lambda>c. c < p) xs"
  have f: "filter (\<lambda>c. c < p) xs = ?t"
    using assms(1) by (rule filter_sorted_less)
  show ?thesis
  proof
    assume lt: "xs ! j < p"
    show "j < length (filter (\<lambda>c. c < p) xs)"
    proof (rule ccontr)
      assume "\<not> j < length (filter (\<lambda>c. c < p) xs)"
      then have le: "length ?t \<le> j" by (simp add: f)
      with assms(2) have "length ?t < length xs" by simp
      then have "\<not> xs ! length ?t < p" by (rule nth_length_takeWhile)
      moreover have "xs ! length ?t \<le> xs ! j"
        using assms le by (intro sorted_nth_mono)
      ultimately show False using lt by simp
    qed
  next
    assume "j < length (filter (\<lambda>c. c < p) xs)"
    then have j: "j < length ?t" by (simp add: f)
    then have "?t ! j = xs ! j" by (rule takeWhile_nth)
    moreover have "?t ! j \<in> set ?t" using j by simp
    then have "?t ! j < p" by (rule set_takeWhileD [THEN conjunct2])
    ultimately show "xs ! j < p" by simp
  qed
qed

lemma map_fst_zip_upt: "map fst (zip xs [0..<length xs]) = xs"
  by (rule map_fst_zip) simp

lemma mset_map_fst_sort_desc: "mset (map fst (sort_desc xs)) = mset xs"
proof -
  have "mset (map fst (sort_desc xs)) = image_mset fst (mset (zip xs [0..<length xs]))"
    by (simp add: mset_sort_desc)
  also have "\<dots> = mset (map fst (zip xs [0..<length xs]))"
    by (simp only: mset_map)
  finally show ?thesis
    by (simp only: map_fst_zip_upt)
qed

lemma sum_list_sort_desc: "sum_list (map fst (sort_desc xs)) = sum_list (xs :: real list)"
  by (metis mset_map_fst_sort_desc sum_mset_sum_list)

lemma set_map_fst_sort_desc: "set (map fst (sort_desc xs)) = set xs"
  by (metis mset_map_fst_sort_desc set_mset_mset)

lemma foldr_max_ge: "x \<in> set xs \<Longrightarrow> x \<le> foldr max xs (0::nat)"
  by (induction xs) (auto simp: max_def)

lemma foldr_max_le: "\<forall>x\<in>set xs. x \<le> n \<Longrightarrow> foldr max xs (0::nat) \<le> n"
  by (induction xs) auto

lemma topp_row_props:
  assumes nn: "\<forall>x\<in>set probs. 0 \<le> x" and one: "sum_list probs = 1" and p: "0 < p" "p \<le> 1"
  defines "sp \<equiv> map fst (sort_desc probs)"
  defines "c \<equiv> length (filter (\<lambda>c. c < p) (cumsum sp))"
  shows "topp_row p probs =
      (sp, map snd (sort_desc probs), (map (\<lambda>c. c < p) (cumsum sp))[c := True], c)"
    and "c < length probs"
    and "\<forall>j<length probs. (map (\<lambda>c. c < p) (cumsum sp))[c := True] ! j \<longleftrightarrow> j \<le> c"
    and "is_nucleus_reaching p sp (Suc c)"
proof -
  let ?cs = "cumsum sp"
  have len: "length sp = length probs" by (simp add: sp_def)
  have V: "0 < length probs" using one by (cases probs) simp_all
  have spnn: "\<forall>x\<in>set sp. 0 \<le> x"
    using nn by (simp only: sp_def set_map_fst_sort_desc) 
  have srt: "sorted ?cs" using spnn by (rule sorted_cumsum)
  have pre: "?cs ! j < p \<longleftrightarrow> j < c" if "j < length probs" for j
    unfolding c_def using srt that len by (intro sorted_less_prefix) simp_all
  have last: "?cs ! (length probs - 1) = 1"
    using V len one by (simp add: cumsum_nth sp_def sum_list_sort_desc)
  have "\<not> (length probs - 1 < c)"
    using pre [of "length probs - 1"] V last p by simp
  with V show c: "c < length probs" by linarith
  have cnt: "length (filter (\<lambda>c. c) (map (\<lambda>c. c < p) ?cs)) = c"
    by (simp add: c_def filter_map o_def)
  have "min c (length probs - 1) = c" using c by simp
  then show "topp_row p probs =
      (sp, map snd (sort_desc probs), (map (\<lambda>c. c < p) ?cs)[c := True], c)"
    using cnt len by (simp add: topp_row_def Let_def sp_def)
  show "\<forall>j<length probs. (map (\<lambda>c. c < p) ?cs)[c := True] ! j \<longleftrightarrow> j \<le> c"
  proof (intro allI impI)
    fix j assume j: "j < length probs"
    then have "(map (\<lambda>c. c < p) ?cs)[c := True] ! j = (if c = j then True else ?cs ! j < p)"
      using len by (simp add: nth_list_update)
    with pre [OF j] show "(map (\<lambda>c. c < p) ?cs)[c := True] ! j \<longleftrightarrow> j \<le> c"
      by auto
  qed
  have "p \<le> sum_list (take (Suc c) sp)"
    using pre [of c] c len by (simp add: cumsum_nth)
  moreover have "sum_list (take m sp) < p" if "m < Suc c" for m
  proof (cases m)
    case 0
    with p show ?thesis by simp
  next
    case (Suc m')
    with that c have "m' < c" "m' < length probs" by simp_all
    with pre [of m'] len Suc show ?thesis by (simp add: cumsum_nth)
  qed
  ultimately show "is_nucleus_reaching p sp (Suc c)"
    using c len by (simp add: is_nucleus_reaching_def)
qed

lemma exp_lp_nonneg: "0 \<le> exp_lp x"
  by (cases x) simp_all

lemma topk_eq:
  "k \<le> length xs \<Longrightarrow>
   topk k xs = Inr (map fst (take k (sort_desc xs)), map snd (take k (sort_desc xs)))"
  by (simp add: topk_def Let_def)

lemma length_sibling_score [simp]: "length (sibling_score rate k) = k"
  by (simp add: sibling_score_def)

lemma sibling_score_nth:
  assumes "i < k"
  shows "sibling_score rate k ! i = real (i + 1) * rate"
proof -
  have "i < length [1..<k + 1]" using assms by simp
  then have "sibling_score rate k ! i = real ([1..<k + 1] ! i) * rate"
    unfolding sibling_score_def by (rule nth_map)
  moreover have "1 + i < k + 1" using assms by simp
  then have "[1..<k + 1] ! i = 1 + i" by (rule nth_upt)
  ultimately show ?thesis by (simp add: add.commute)
qed

lemma penalized_row:
  assumes "k \<le> length row"
  shows "map (\<lambda>(v, pen). shift v (- pen))
           (zip (map fst (take k (sort_desc row))) (sibling_score rate k))
         = penalized_siblings rate k row"
proof (rule nth_equalityI)
  show "length (map (\<lambda>(v, pen). shift v (- pen))
           (zip (map fst (take k (sort_desc row))) (sibling_score rate k)))
      = length (penalized_siblings rate k row)"
    using assms by (simp add: penalized_siblings_def)
next
  fix i
  assume "i < length (map (\<lambda>(v, pen). shift v (- pen))
           (zip (map fst (take k (sort_desc row))) (sibling_score rate k)))"
  then have i: "i < k" using assms by simp
  with assms show "map (\<lambda>(v, pen). shift v (- pen))
           (zip (map fst (take k (sort_desc row))) (sibling_score rate k)) ! i
         = penalized_siblings rate k row ! i"
    by (simp add: sibling_score_nth penalized_siblings_def)
qed

lemma tokens_row:
  assumes "k \<le> length row" "length row = V"
  shows "map (\<lambda>i. i mod V) (map snd (take k (sort_desc row))) = sibling_tokens k row"
proof (rule nth_equalityI)
  show "length (map (\<lambda>i. i mod V) (map snd (take k (sort_desc row))))
      = length (sibling_tokens k row)"
    using assms by (simp add: sibling_tokens_def)
next
  fix i
  assume "i < length (map (\<lambda>i. i mod V) (map snd (take k (sort_desc row))))"
  then have i: "i < k" using assms by simp
  then have "sort_desc row ! i \<in> set (sort_desc row)" using assms by simp
  then have "snd (sort_desc row ! i) < V"
    using assms(2) by (auto dest: sort_desc_snd_less)
  with i assms show "map (\<lambda>i. i mod V) (map snd (take k (sort_desc row))) ! i
      = sibling_tokens k row ! i"
    by (simp add: sibling_tokens_def)
qed

lemma rank_siblings_eq:
  assumes m: "is_tensor2 K V m" and K: "0 < K" and k: "k \<le> V"
  shows "rank_siblings rate k V m =
     Inr (map fst (take k (sort_desc (concat (map (penalized_siblings rate k) m)))),
          map (\<lambda>q. concat (map (sibling_tokens k) m) ! q)
            (map snd (take k (sort_desc (concat (map (penalized_siblings rate k) m))))),
          map (\<lambda>q. q div k)
            (map snd (take k (sort_desc (concat (map (penalized_siblings rate k) m))))))"
proof -
  let ?tops = "map (\<lambda>row. (map fst (take k (sort_desc row)), map snd (take k (sort_desc row)))) m"
  have rows: "\<And>row. row \<in> set m \<Longrightarrow> length row = V"
    using m by (rule is_tensor2_set)
  have tops: "mapM (topk k) m = Inr ?tops"
    using rows k by (intro mapM_eq_map) (simp add: topk_eq)
  have s: "map (\<lambda>(vals, idxs). map (\<lambda>(v, pen). shift v (- pen))
              (zip vals (sibling_score rate k))) ?tops = map (penalized_siblings rate k) m"
  proof -
    have "map (\<lambda>(v, pen). shift v (- pen))
           (zip (map fst (take k (sort_desc row))) (sibling_score rate k))
         = penalized_siblings rate k row" if "row \<in> set m" for row
      using that rows k by (intro penalized_row) simp
    then show ?thesis
      unfolding map_map o_def prod.case map_eq_conv by blast
  qed
  have i: "map (\<lambda>(vals, idxs). map (\<lambda>i. i mod V) idxs) ?tops = map (sibling_tokens k) m"
  proof -
    have "map (\<lambda>i. i mod V) (map snd (take k (sort_desc row))) = sibling_tokens k row"
      if "row \<in> set m" for row
      using that rows k by (intro tokens_row) simp_all
    then show ?thesis
      unfolding map_map o_def prod.case map_eq_conv by blast
  qed
  have "is_tensor2 K k (map (penalized_siblings rate k) m)"
    using m by (simp add: is_tensor2_iff penalized_siblings_def)
  then have "length (concat (map (penalized_siblings rate k) m)) = K * k"
    by (rule length_concat_tensor2)
  then have "k \<le> length (concat (map (penalized_siblings rate k) m))"
    using K by simp
  then have top: "topk k (concat (map (penalized_siblings rate k) m)) =
      Inr (map fst (take k (sort_desc (concat (map (penalized_siblings rate k) m)))),
           map snd (take k (sort_desc (concat (map (penalized_siblings rate k) m)))))"
    by (rule topk_eq)
  show ?thesis
    unfolding rank_siblings_def tops sum.case Let_def s i top prod.case ..
qed

lemma merge_key_Nil2 [simp]: "merge_key f xs [] = xs"
  by (cases xs) simp_all

lemma insort_merge_single: "insort_key f x ys = merge_key f [x] ys"
  by (induction ys) simp_all

lemma insort_merge_key:
  "insort_key f x (merge_key f xs ys) = merge_key f (insort_key f x xs) ys"
proof (induction f xs ys rule: merge_key.induct)
  case (1 f ys)
  then show ?case by (simp add: insort_merge_single)
next
  case (2 f v va)
  then show ?case by simp
next
  case (3 f a xs b ys)
  then show ?case by auto
qed

lemma foldr_insort_merge:
  "foldr (insort_key f) xs ys = merge_key f (sort_key f xs) ys"
  by (induction xs) (simp_all add: insort_merge_key)

lemma sort_key_append_merge:
  "sort_key f (xs @ ys) = merge_key f (sort_key f xs) (sort_key f ys)"
proof -
  have "sort_key f (xs @ ys) = foldr (insort_key f) xs (sort_key f ys)"
    by (simp add: sort_key_def)
  then show ?thesis
    by (simp only: foldr_insort_merge)
qed

lemma take_merge_key:
  "k \<le> a \<Longrightarrow> k \<le> b \<Longrightarrow>
   take k (merge_key f (take a xs) (take b ys)) = take k (merge_key f xs ys)"
proof (induction f xs ys arbitrary: k a b rule: merge_key.induct)
  case (1 f ys)
  then show ?case by (simp add: min_absorb1)
next
  case (2 f v va)
  then show ?case by (simp add: min_absorb1 del: take_Cons')
next
  case (3 f x xs y ys)
  show ?case
  proof (cases k)
    case 0
    then show ?thesis by simp
  next
    case (Suc k')
    with 3(3,4) obtain a' b' where ab: "a = Suc a'" "b = Suc b'" "k' \<le> a'" "k' \<le> b'"
      by (metis Suc_le_D Suc_le_mono)
    show ?thesis
    proof (cases "f x \<le> f y")
      case True
      have "take k' (merge_key f (take a' xs) (take (Suc b') (y # ys)))
          = take k' (merge_key f xs (y # ys))"
        using ab True by (intro "3.IH"(1)) simp_all
      with True Suc ab show ?thesis by simp
    next
      case False
      have "take k' (merge_key f (take (Suc a') (x # xs)) (take b' ys))
          = take k' (merge_key f (x # xs) ys)"
        using ab False by (intro "3.IH"(2)) simp_all
      with False Suc ab show ?thesis by simp
    qed
  qed
qed

lemma sorted_take_sort_key: "sorted (map f (take k (sort_key f xs)))"
proof -
  have "sorted (take k (map f (sort_key f xs)))"
    by (intro sorted_wrt_take) simp
  then show ?thesis by (simp add: take_map)
qed

lemma sort_key_take_sort_key: "sort_key f (take k (sort_key f xs)) = take k (sort_key f xs)"
  by (intro sort_key_id_if_sorted sorted_take_sort_key)

lemma take_sort_key_append:
  "take k (sort_key f (xs @ ys))
     = take k (sort_key f (take k (sort_key f xs) @ take k (sort_key f ys)))"
proof -
  have "take k (sort_key f (xs @ ys)) = take k (merge_key f (sort_key f xs) (sort_key f ys))"
    by (simp only: sort_key_append_merge)
  also have "\<dots> = take k (merge_key f (take k (sort_key f xs)) (take k (sort_key f ys)))"
    by (rule take_merge_key [symmetric]) simp_all
  also have "\<dots> = take k (sort_key f (take k (sort_key f xs) @ take k (sort_key f ys)))"
    by (simp only: sort_key_append_merge sort_key_take_sort_key)
  finally show ?thesis .
qed

lemma take_sort_key_concat:
  "take k (sort_key f (concat xss))
     = take k (sort_key f (concat (map (\<lambda>xs. take k (sort_key f xs)) xss)))"
proof (induction xss)
  case Nil
  then show ?case by simp
next
  case (Cons xs xss)
  let ?t = "\<lambda>xs. take k (sort_key f xs)"
  have "take k (sort_key f (concat (xs # xss)))
      = take k (sort_key f (?t xs @ ?t (concat xss)))"
    by (simp add: take_sort_key_append [of k f xs "concat xss"])
  also have "?t (concat xss) = ?t (concat (map ?t xss))"
    by (rule Cons.IH)
  also have "take k (sort_key f (?t xs @ ?t (concat (map ?t xss))))
      = take k (sort_key f (?t (?t xs) @ ?t (concat (map ?t xss))))"
    by (simp only: sort_key_take_sort_key take_take min.idem)
  also have "\<dots> = take k (sort_key f (?t xs @ concat (map ?t xss)))"
    by (rule take_sort_key_append [symmetric])
  finally show ?case by simp
qed

lemma map_insort_key:
  "map h (insort_key (\<lambda>x. g (h x)) x xs) = insort_key g (h x) (map h xs)"
  by (induction xs) simp_all

lemma map_sort_key:
  "map h (sort_key (\<lambda>x. g (h x)) xs) = sort_key g (map h xs)"
  by (induction xs) (simp_all add: map_insort_key)

lemma shift_zero [simp]: "shift v 0 = v"
  by (cases v) simp_all

lemma sort_desc_tagged:
  "map (\<lambda>p. (fst p, h (snd p))) (sort_desc xs)
     = sort_key (\<lambda>t. Down (fst t)) (map (\<lambda>n. (xs ! n, h n)) [0..<length xs])"
proof -
  have "map (\<lambda>p. (fst p, h (snd p))) (sort_desc xs)
      = sort_key (\<lambda>t. Down (fst t)) (map (\<lambda>p. (fst p, h (snd p))) (zip xs [0..<length xs]))"
    unfolding sort_desc_def
    using map_sort_key [of "\<lambda>p. (fst p, h (snd p))" "\<lambda>t. Down (fst t)" "zip xs [0..<length xs]"]
    by simp
  moreover have "map (\<lambda>p. (fst p, h (snd p))) (zip xs [0..<length xs])
      = map (\<lambda>n. (xs ! n, h n)) [0..<length xs]"
    by (rule nth_equalityI) simp_all
  ultimately show ?thesis by simp
qed

lemma rank_siblings_zero_rate:
  assumes m: "is_tensor2 K V m" and pos: "0 < K" "0 < V"
    and k: "k = min (K * 2) (K * V - 1)" "k \<le> V"
  shows "rank_siblings 0 k V m = rank_flat K V m"
proof -
  let ?key = "\<lambda>t :: lprob \<times> nat \<times> nat. Down (fst t)"
  let ?flat = "concat m"
  let ?pooled = "concat (map (penalized_siblings 0 k) m)"
  let ?table = "concat (map (sibling_tokens k) m)"
  let ?rows = "map (\<lambda>i. map (\<lambda>v. (m ! i ! v, v, i)) [0..<V]) [0..<K]"
  let ?P = "concat (map (\<lambda>xs. take k (sort_key ?key xs)) ?rows)"
  let ?hB = "\<lambda>p :: lprob \<times> nat. (fst p, snd p mod V, snd p div V)"
  let ?hD = "\<lambda>p :: lprob \<times> nat. (fst p, ?table ! snd p, snd p div k)"
  have ml: "length m = K" and rl: "\<And>i. i < K \<Longrightarrow> length (m ! i) = V"
    using m by (simp_all add: is_tensor2_iff)
  have fl: "length ?flat = K * V"
    using m by (rule length_concat_tensor2)
  \<comment> \<open>the flat ranking, tagged with token and beam\<close>
  have rows_t: "is_tensor2 K V ?rows"
    by (simp add: is_tensor2_iff)
  have "map (\<lambda>n. (?flat ! n, n mod V, n div V)) [0..<length ?flat] = concat ?rows"
  proof (rule nth_equalityI)
    show "length (map (\<lambda>n. (?flat ! n, n mod V, n div V)) [0..<length ?flat])
        = length (concat ?rows)"
      using length_concat_tensor2 [OF rows_t] fl by simp
  next
    fix n assume "n < length (map (\<lambda>n. (?flat ! n, n mod V, n div V)) [0..<length ?flat])"
    then have n: "n < K * V" using fl by simp
    then have d: "n div V < K" "n mod V < V"
      using pos by (simp_all add: less_mult_imp_div_less)
    have "concat ?rows ! n = ?rows ! (n div V) ! (n mod V)"
      using rows_t n by (rule concat_tensor2_nth)
    also have "\<dots> = (m ! (n div V) ! (n mod V), n mod V, n div V)"
      using d by simp
    also have "m ! (n div V) ! (n mod V) = ?flat ! n"
      using concat_tensor2_nth [OF m n] by simp
    finally show "map (\<lambda>n. (?flat ! n, n mod V, n div V)) [0..<length ?flat] ! n
        = concat ?rows ! n"
      using n fl by simp
  qed
  with sort_desc_tagged [of "\<lambda>n. (n mod V, n div V)" ?flat]
  have A: "map ?hB (sort_desc ?flat) = sort_key ?key (concat ?rows)"
    by simp
  \<comment> \<open>one beam slot, tagged with token and beam\<close>
  have slot: "map (\<lambda>p. (fst p, snd p, i)) (sort_desc (m ! i)) = sort_key ?key (?rows ! i)"
    if "i < K" for i
    using sort_desc_tagged [of "\<lambda>v. (v, i)" "m ! i"] that rl by simp
  \<comment> \<open>the pool of the slots' best\<close>
  have pen_t: "is_tensor2 K k (map (penalized_siblings 0 k) m)"
    using ml by (simp add: is_tensor2_iff penalized_siblings_def)
  have tok_t: "is_tensor2 K k (map (sibling_tokens k) m)"
    using ml by (simp add: is_tensor2_iff sibling_tokens_def)
  have best_t: "is_tensor2 K k (map (\<lambda>xs. take k (sort_key ?key xs)) ?rows)"
    using k(2) by (simp add: is_tensor2_iff)
  have pl: "length ?pooled = K * k"
    using pen_t by (rule length_concat_tensor2)
  have "map (\<lambda>q. (?pooled ! q, ?table ! q, q div k)) [0..<length ?pooled] = ?P"
  proof (rule nth_equalityI)
    show "length (map (\<lambda>q. (?pooled ! q, ?table ! q, q div k)) [0..<length ?pooled]) = length ?P"
      using length_concat_tensor2 [OF best_t] pl by simp
  next
    fix q assume "q < length (map (\<lambda>q. (?pooled ! q, ?table ! q, q div k)) [0..<length ?pooled])"
    then have q: "q < K * k" using pl by simp
    then have kpos: "0 < k" by (cases k) simp_all
    have d: "q div k < K" "q mod k < k"
      using q kpos by (simp_all add: less_mult_imp_div_less)
    let ?i = "q div k" and ?r = "q mod k"
    have rV: "?r < V" using d k(2) by simp
    have sl: "?r < length (sort_desc (m ! ?i))" using rV rl d by simp
    have "?pooled ! q = map (penalized_siblings 0 k) m ! ?i ! ?r"
      using pen_t q by (rule concat_tensor2_nth)
    then have p1: "?pooled ! q = fst (sort_desc (m ! ?i) ! ?r)"
      using d ml by (simp add: penalized_siblings_def)
    have "?table ! q = map (sibling_tokens k) m ! ?i ! ?r"
      using tok_t q by (rule concat_tensor2_nth)
    then have p2: "?table ! q = snd (sort_desc (m ! ?i) ! ?r)"
      using d ml by (simp add: sibling_tokens_def)
    have "?P ! q = map (\<lambda>xs. take k (sort_key ?key xs)) ?rows ! ?i ! ?r"
      using best_t q by (rule concat_tensor2_nth)
    also have "\<dots> = sort_key ?key (?rows ! ?i) ! ?r"
      using d by simp
    also have "\<dots> = map (\<lambda>p. (fst p, snd p, ?i)) (sort_desc (m ! ?i)) ! ?r"
      using slot [OF d(1)] by simp
    also have "\<dots> = (fst (sort_desc (m ! ?i) ! ?r), snd (sort_desc (m ! ?i) ! ?r), ?i)"
      using sl by simp
    finally show "map (\<lambda>q. (?pooled ! q, ?table ! q, q div k)) [0..<length ?pooled] ! q = ?P ! q"
      using q pl p1 p2 by simp
  qed
  with sort_desc_tagged [of "\<lambda>q. (?table ! q, q div k)" ?pooled]
  have B: "map ?hD (sort_desc ?pooled) = sort_key ?key ?P"
    by simp
  \<comment> \<open>the best of the pool are the best of the flat ranking\<close>
  have "take k (map ?hB (sort_desc ?flat)) = take k (map ?hD (sort_desc ?pooled))"
    unfolding A B by (rule take_sort_key_concat)
  then have eq: "map ?hB (take k (sort_desc ?flat)) = map ?hD (take k (sort_desc ?pooled))"
    by (simp add: take_map)
  have c1: "map fst (take k (sort_desc ?flat)) = map fst (take k (sort_desc ?pooled))"
    using arg_cong [OF eq, of "map fst"] by (simp add: o_def)
  have c2: "map (\<lambda>p. snd p mod V) (take k (sort_desc ?flat))
      = map (\<lambda>p. ?table ! snd p) (take k (sort_desc ?pooled))"
    using arg_cong [OF eq, of "map (\<lambda>t. fst (snd t))"] by (simp add: o_def)
  have c3: "map (\<lambda>p. snd p div V) (take k (sort_desc ?flat))
      = map (\<lambda>p. snd p div k) (take k (sort_desc ?pooled))"
    using arg_cong [OF eq, of "map (\<lambda>t. snd (snd t))"] by (simp add: o_def)
  have "rank_flat K V m = Inr (rank_top K V ?flat)"
    using fl pos by (simp add: rank_flat_eq)
  moreover have "rank_top K V ?flat =
      (map fst (take k (sort_desc ?flat)), map (\<lambda>p. snd p mod V) (take k (sort_desc ?flat)),
       map (\<lambda>p. snd p div V) (take k (sort_desc ?flat)))"
    using fl k(1) by (simp add: rank_top_def Let_def)
  ultimately show ?thesis
    using rank_siblings_eq [OF m pos(1) k(2), of 0] c1 c2 c3 by (simp add: o_def)
qed

lemma mapM_cong: "(\<And>x. x \<in> set xs \<Longrightarrow> f x = g x) \<Longrightarrow> mapM f xs = mapM g xs"
proof (induction xs)
  case Nil
  then show ?case by simp
next
  case (Cons a xs)
  then have eq: "f a = g a" "mapM f xs = mapM g xs"
    by simp_all
  show ?case
    unfolding mapM.simps eq ..
qed

lemma DiverseSiblingsSearch_step_zero_rate:
  assumes t: "is_tensor3 B K V lprobs" and pos: "0 < B" "0 < K" "0 < V"
    and sc: "is_tensor3 B K T scores" "0 < step" "step \<le> T"
    and k: "min (2 * K) (K * V - 1) \<le> V"
  shows "DiverseSiblingsSearch_step 0 step lprobs scores = BeamSearch_step step lprobs scores"
proof -
  let ?col = "map (map (\<lambda>r. r ! (step - 1))) scores"
  let ?k = "min (K * 2) (K * V - 1)"
  have hd: "lprobs \<noteq> []" "length (hd lprobs) = K" "length (hd (hd lprobs)) = V"
    using t pos by (simp_all add: is_tensor3_hd)
  have sel: "select_col (step - 1) scores = Inr ?col" and col: "is_tensor2 B K ?col"
    using sc by (simp_all add: select_col_tensor)
  have add: "add_col lprobs ?col = Inr (add_hist lprobs ?col)"
    using t col by (rule add_col_tensor)
  have ct: "is_tensor3 B K V (add_hist lprobs ?col)"
    using t col by (rule add_hist_tensor)
  have kV: "?k \<le> V" using k by (simp add: mult.commute)
  have "mapM (rank_siblings 0 ?k V) (add_hist lprobs ?col)
      = mapM (rank_flat K V) (add_hist lprobs ?col)"
  proof (rule mapM_cong)
    fix m assume "m \<in> set (add_hist lprobs ?col)"
    with ct have "is_tensor2 K V m" by (rule is_tensor3_set)
    then show "rank_siblings 0 ?k V m = rank_flat K V m"
      using pos(2,3) refl kV by (rule rank_siblings_zero_rate)
  qed
  then show ?thesis
    using hd pos sc(2) sel add
    by (simp add: DiverseSiblingsSearch_step_def BeamSearch_step_def Let_def mult.commute)
qed

lemma truncate_dist_no_logprob:
  assumes "sampling_topk s \<le> 0" "truncate_dist s lprobs = Inr (probs, top_indices, logprob)"
  shows "logprob = None"
  using assms by (auto simp: truncate_dist_def split: if_splits sum.splits prod.splits)

lemma Sampling_step_needs_topk:
  assumes "sampling_topk s \<le> 0"
  shows "Sampling_step s rescore rescorer draws step lprobs scores \<noteq> Inr r"
proof (cases "truncate_dist s (if step = 0 then first_beam lprobs else lprobs)")
  case (Inl e)
  then show ?thesis
    by (simp add: Sampling_step_def Let_def)
next
  case (Inr x)
  obtain probs top_indices logprob where x: "x = (probs, top_indices, logprob)"
    by (cases x)
  with Inr assms have "logprob = None"
    by (auto dest: truncate_dist_no_logprob)
  with Inr x show ?thesis
    by (simp add: Sampling_step_def Let_def)
qed

text \<open>
  The steps of \<^verbatim>\<open>DiverseSiblingsSearch\<close> after the first, where the number \<open>k\<close> of
  candidates asked of a beam slot is within the vocabulary: every slot contributes its \<open>k\<close>
  best cumulative scores, the one of rank \<open>i\<close> lowered by \<open>(i + 1) * diversity_rate\<close>; the
  candidates of all slots are pooled in slot order; the returned scores are the top \<open>k\<close> of
  the pool, the beam of a winner is its position in the pool divided by \<open>k\<close>, and its token
  is the entry of the slots' token table at that position.
\<close>

lemma DiverseSiblingsSearch_step_pooled:
  assumes t: "is_tensor3 B K V lprobs" and pos: "0 < B" "0 < K" "0 < V"
    and sc: "is_tensor3 B K T scores" "0 < step" "step \<le> T"
    and k: "k = min (2 * K) (K * V - 1)" "k \<le> V"
  shows "\<exists>S I Bm. DiverseSiblingsSearch_step rate step lprobs scores = Inr (S, I, Bm) \<and>
     is_tensor2 B k S \<and> is_tensor2 B k I \<and> is_tensor2 B k Bm \<and>
     (\<forall>b<B.
        let m = candidates step lprobs scores ! b;
            pooled = concat (map (penalized_siblings rate k) m);
            table = concat (map (sibling_tokens k) m)
        in \<exists>qs. topk k pooled = Inr (S ! b, qs) \<and>
                Bm ! b = map (\<lambda>q. q div k) qs \<and> I ! b = map (\<lambda>q. table ! q) qs)"
proof -
  let ?col = "map (map (\<lambda>r. r ! (step - 1))) scores"
  let ?c = "candidates step lprobs scores"
  define pooled where "pooled m = concat (map (penalized_siblings rate k) m)" for m
  define table where "table m = concat (map (sibling_tokens k) m)" for m
  define f where "f m = (map fst (take k (sort_desc (pooled m))),
          map (\<lambda>q. table m ! q) (map snd (take k (sort_desc (pooled m)))),
          map (\<lambda>q. q div k) (map snd (take k (sort_desc (pooled m)))))" for m
  have hd: "lprobs \<noteq> []" "length (hd lprobs) = K" "length (hd (hd lprobs)) = V"
    using t pos by (simp_all add: is_tensor3_hd)
  have c: "?c = add_hist lprobs ?col"
    using sc(2) by (simp add: candidates_def)
  have sel: "select_col (step - 1) scores = Inr ?col" and col: "is_tensor2 B K ?col"
    using sc by (simp_all add: select_col_tensor)
  have add: "add_col lprobs ?col = Inr ?c"
    unfolding c using t col by (rule add_col_tensor)
  have ct: "is_tensor3 B K V ?c"
    unfolding c using t col by (rule add_hist_tensor)
  have pl: "length (pooled m) = K * k" if "m \<in> set ?c" for m
  proof -
    from ct that have "is_tensor2 K V m" by (rule is_tensor3_set)
    then have "is_tensor2 K k (map (penalized_siblings rate k) m)"
      by (simp add: is_tensor2_iff penalized_siblings_def)
    then show ?thesis
      unfolding pooled_def by (rule length_concat_tensor2)
  qed
  have "mapM (rank_siblings rate k V) ?c = Inr (map f ?c)"
  proof (rule mapM_eq_map)
    fix m assume "m \<in> set ?c"
    with ct have "is_tensor2 K V m" by (rule is_tensor3_set)
    from rank_siblings_eq [OF this pos(2) k(2)] show "rank_siblings rate k V m = Inr (f m)"
      by (simp add: f_def pooled_def table_def)
  qed
  then have step: "DiverseSiblingsSearch_step rate step lprobs scores = Inr (unzip3 (map f ?c))"
    using hd pos sc(2) sel add k(1)
    by (simp add: DiverseSiblingsSearch_step_def Let_def mult.commute)
  have cl: "length ?c = B" using ct by (rule is_tensor3_length)
  have kk: "k \<le> K * k" using pos(2) by simp
  have w: "length (fst (f m)) = k \<and> length (fst (snd (f m))) = k \<and>
      length (snd (snd (f m))) = k" if "m \<in> set ?c" for m
    using pl [OF that] kk by (simp add: f_def)
  have sh: "is_tensor2 B k (fst (unzip3 (map f ?c)))"
    "is_tensor2 B k (fst (snd (unzip3 (map f ?c))))"
    "is_tensor2 B k (snd (snd (unzip3 (map f ?c))))"
    using unzip3_map_tensor [of ?c f k, OF w] cl by simp_all
  have el: "\<exists>qs. topk k (pooled (?c ! b)) = Inr (fst (unzip3 (map f ?c)) ! b, qs) \<and>
       snd (snd (unzip3 (map f ?c))) ! b = map (\<lambda>q. q div k) qs \<and>
       fst (snd (unzip3 (map f ?c))) ! b = map (\<lambda>q. table (?c ! b) ! q) qs" if "b < B" for b
  proof -
    have "?c ! b \<in> set ?c" using that cl by simp
    then have "k \<le> length (pooled (?c ! b))" using pl kk by simp
    then have "topk k (pooled (?c ! b)) =
        Inr (map fst (take k (sort_desc (pooled (?c ! b)))),
             map snd (take k (sort_desc (pooled (?c ! b)))))"
      by (rule topk_eq)
    then show ?thesis
      using that cl by (simp add: unzip3_def f_def)
  qed
  obtain S I Bm where r: "unzip3 (map f ?c) = (S, I, Bm)"
    by (metis prod_cases3)
  show ?thesis
    using step sh el unfolding r
    by (simp add: Let_def pooled_def table_def)
qed

lemma DiverseSiblingsSearch_step_pooled_example:
  "is_tensor3 1 2 4
     [[[Val (- 1), Val (- 2), Val (- 3), Val (- 5)], [Val (- 1), Val (- 2), Val (- 3), Val (- 4)]]]
   \<and> is_tensor3 1 2 1 [[[Val 0], [Val (- 1)]]]
   \<and> (4 :: nat) = min (2 * 2) (2 * 4 - 1)
   \<and> DiverseSiblingsSearch_step 1 1
        [[[Val (- 1), Val (- 2), Val (- 3), Val (- 5)], [Val (- 1), Val (- 2), Val (- 3), Val (- 4)]]]
        [[[Val 0], [Val (- 1)]]]
      = Inr ([[Val (- 2), Val (- 3), Val (- 4), Val (- 5)]], [[0, 0, 1, 1]], [[0, 1, 0, 1]])
   \<and> (\<exists>S I Bm. DiverseSiblingsSearch_step 1 1
        [[[Val (- 1), Val (- 2), Val (- 3), Val (- 5)], [Val (- 1), Val (- 2), Val (- 3), Val (- 4)]]]
        [[[Val 0], [Val (- 1)]]] = Inr (S, I, Bm)
        \<and> is_tensor2 1 4 S \<and> is_tensor2 1 4 I \<and> is_tensor2 1 4 Bm)"
proof -
  let ?x = "[[[Val (- 1), Val (- 2), Val (- 3), Val (- 5)],
              [Val (- 1), Val (- 2), Val (- 3), Val (- 4)]]]"
  let ?h = "[[[Val 0], [Val (- 1)]]]"
  have t: "is_tensor3 1 2 4 ?x" and h: "is_tensor3 1 2 1 ?h"
    by (simp_all add: is_tensor3_def is_tensor2_def)
  have k: "(4 :: nat) = min (2 * 2) (2 * 4 - 1)"
    by simp
  have v: "DiverseSiblingsSearch_step 1 1 ?x ?h
      = Inr ([[Val (- 2), Val (- 3), Val (- 4), Val (- 5)]], [[0, 0, 1, 1]], [[0, 1, 0, 1]])"
    by code_simp
  from DiverseSiblingsSearch_step_pooled [OF t _ _ _ h _ _ k, of 1 1]
  have "\<exists>S I Bm. DiverseSiblingsSearch_step 1 1 ?x ?h = Inr (S, I, Bm)
        \<and> is_tensor2 1 4 S \<and> is_tensor2 1 4 I \<and> is_tensor2 1 4 Bm"
    by auto
  with t h k v show ?thesis
    by blast
qed

section \<open>Claims\<close>

text \<open>
  C1. The claim: with neither truncation mode configured (\<^verbatim>\<open>sampling_topk <= 0\<close> and
  \<^verbatim>\<open>sampling_topp <= 0\<close>), \<^verbatim>\<open>Sampling.step\<close> completes without error and returns a triple
  sampled from the full vocabulary. In the code \<^verbatim>\<open>logprob\<close> is only assigned in the top-k
  branch, and \<^verbatim>\<open>lprobs = logprob.clone()\<close> follows all three branches: with the default
  configuration the step raises \<^verbatim>\<open>AttributeError\<close>, whatever the draws and the rescoring
  arguments are. No call with \<^verbatim>\<open>sampling_topk <= 0\<close> returns (\<open>Sampling_step_needs_topk\<close>
  above).
\<close>

theorem Sampling_step_untruncated_raises:
  "Sampling_step (Sampling_init (- 1) (- 1)) rescore rescorer draws 0
     [[[Val (- 1), Val (- 2)]]] scores = Inl AttributeError"
  by (simp add: Sampling_step_def Sampling_init_def truncate_dist_def first_beam_def)

text \<open>
  C2. The claim gives the output width of \<^verbatim>\<open>BeamSearch.step\<close> as \<open>min (2 * K) (V - 1)\<close> at
  every step. The code takes \<open>k\<close> from the flattened view, which has \<open>V\<close> entries at step 0
  (one beam) and \<open>K * V\<close> entries afterwards: with two beams over three tokens the step
  after the first returns four candidates, not two.
\<close>

theorem BeamSearch_step_width_counterexample:
  "BeamSearch_step 1
     [[[Val (- 3), Val (- 1), Val (- 2)], [Val (- 3), Val (- 1), Val (- 2)]]]
     [[[Val 0], [Val (- 1)]]]
   = Inr ([[Val (- 1), Val (- 2), Val (- 2), Val (- 3)]], [[1, 2, 1, 0]], [[0, 0, 1, 0]])
   \<and> \<not> is_tensor2 1 (min (2 * 2) (3 - 1))
         [[Val (- 1), Val (- 2), Val (- 2), Val (- 3)]]"
  by (simp add: BeamSearch_step_def rank_flat_def topk_def sort_desc_def unzip3_def
      select_col_def add_col_def bcast_def is_tensor2_def)

text \<open>
  C2, amended. On a tensor of shape \<open>(B, K, V)\<close> with positive dimensions (and, after the
  first step, a score history of shape \<open>(B, K, T)\<close> with \<open>step \<le> T\<close>) the step returns three
  arrays of shape \<open>(B, w)\<close>, where \<open>w = min (2 * K) (V - 1)\<close> at step 0 and
  \<open>w = min (2 * K) (K * V - 1)\<close> afterwards; in both cases \<open>w\<close> is less than the number of
  flattened candidates, so at least one candidate is left out.
\<close>

theorem BeamSearch_step_width:
  assumes "is_tensor3 B K V lprobs" "0 < B" "0 < K" "0 < V"
    and "0 < step \<Longrightarrow> is_tensor3 B K T scores \<and> step \<le> T"
  shows "\<exists>S I Bm. BeamSearch_step step lprobs scores = Inr (S, I, Bm) \<and>
     (let w = (if step = 0 then min (2 * K) (V - 1) else min (2 * K) (K * V - 1)) in
        is_tensor2 B w S \<and> is_tensor2 B w I \<and> is_tensor2 B w Bm \<and>
        w < (if step = 0 then V else K * V))"
  using assms by (rule BeamSearch_step_shape)

theorem BeamSearch_step_width_witness:
  "is_tensor3 1 2 3 [[[Val (- 3), Val (- 1), Val (- 2)], [Val (- 3), Val (- 1), Val (- 2)]]]
   \<and> is_tensor3 1 2 1 [[[Val 0], [Val (- 1)]]]
   \<and> (\<exists>S I Bm.
         BeamSearch_step 1
           [[[Val (- 3), Val (- 1), Val (- 2)], [Val (- 3), Val (- 1), Val (- 2)]]]
           [[[Val 0], [Val (- 1)]]] = Inr (S, I, Bm)
         \<and> is_tensor2 1 4 S \<and> is_tensor2 1 4 I \<and> is_tensor2 1 4 Bm)"
proof -
  have l: "is_tensor3 1 2 3
      [[[Val (- 3), Val (- 1), Val (- 2)], [Val (- 3), Val (- 1), Val (- 2)]]]"
    by (simp add: is_tensor3_def is_tensor2_def)
  have h: "is_tensor3 1 2 1 [[[Val 0], [Val (- 1)]]]"
    by (simp add: is_tensor3_def is_tensor2_def)
  from BeamSearch_step_width [OF l, of 1 1 "[[[Val 0], [Val (- 1)]]]"] h l
  show ?thesis
    by (simp add: Let_def)
qed




text \<open>
  C7. The claim reads the three assignments as three independent rules, among them: the
  end-of-sequence entry is minus infinity whenever \<open>step < min_len\<close>. The assignments run in
  sequence on the same entry, so where \<open>step = max_len\<close> the second one overwrites the first:
  with \<open>min_len = 5\<close>, \<open>max_len = 2\<close> and \<open>step = 2\<close> the entry handed to \<^verbatim>\<open>BeamSearch\<close> is 0.
\<close>

theorem constrain_lengths_eos_counterexample:
  "constrain_lengths (set_src_lengths (LengthConstrainedBeamSearch_init 2 0 5 1 0) [2]) 2
     [[[Val (- 1), Val (- 2), Val (- 3)]]] = Inr [[[Val (- 1), Val (- 2), Val 0]]]
   \<and> real 2 < 0 * of_int 2 + 5 \<and> Val 0 \<noteq> NegInf"
  by (simp add: constrain_lengths_def set_src_lengths_def LengthConstrainedBeamSearch_init_def
      assign_where_def assign_masked_def)

text \<open>
  C7, amended. For every batch element \<open>n\<close> (source lengths supplied, one per batch
  element, and \<open>eos\<close> inside the vocabulary) the tensor handed to \<^verbatim>\<open>BeamSearch.step\<close> has the
  end-of-sequence entry of every beam set to 0 when \<open>step = max_len\<close>, to minus infinity when
  \<open>step \<noteq> max_len\<close> and (\<open>step < min_len\<close> or \<open>step > max_len\<close>), and unchanged otherwise; all
  other vocabulary entries are unchanged. Here \<open>min_len = min_len_a * src_len + min_len_b\<close>
  and \<open>max_len = max_len_a * src_len + max_len_b\<close>.
\<close>

theorem constrain_lengths_eos:
  assumes "is_tensor3 B K V lprobs" "src_lengths s = Vector xs" "length xs = B" "eos s < V"
  shows "\<exists>lp'. constrain_lengths s step lprobs = Inr lp' \<and> is_tensor3 B K V lp' \<and>
     LengthConstrainedBeamSearch_step s step lprobs scores = BeamSearch_step step lp' scores \<and>
     (\<forall>n<B. \<forall>i<K. \<forall>j<V. lp' ! n ! i ! j =
        (if j = eos s then
           (if real step = max_len_a s * of_int (xs ! n) + max_len_b s then Val 0
            else if real step < min_len_a s * of_int (xs ! n) + min_len_b s
                    \<or> real step > max_len_a s * of_int (xs ! n) + max_len_b s then NegInf
            else lprobs ! n ! i ! j)
         else lprobs ! n ! i ! j))"
proof -
  from assign_where_Vector [OF assms(1,3,4)] obtain lp1 where
    1: "assign_where (\<lambda>min_len. real step < min_len) (min_len_a s) (min_len_b s)
             (Vector xs) (eos s) NegInf lprobs = Inr lp1" "is_tensor3 B K V lp1"
      "\<forall>n<B. \<forall>i<K. \<forall>j<V. lp1 ! n ! i ! j =
        (if j = eos s \<and> real step < min_len_a s * of_int (xs ! n) + min_len_b s then NegInf
         else lprobs ! n ! i ! j)"
    by blast
  from assign_where_Vector [OF 1(2) assms(3,4)] obtain lp2 where
    2: "assign_where (\<lambda>max_len. real step = max_len) (max_len_a s) (max_len_b s)
             (Vector xs) (eos s) (Val 0) lp1 = Inr lp2" "is_tensor3 B K V lp2"
      "\<forall>n<B. \<forall>i<K. \<forall>j<V. lp2 ! n ! i ! j =
        (if j = eos s \<and> real step = max_len_a s * of_int (xs ! n) + max_len_b s then Val 0
         else lp1 ! n ! i ! j)"
    by blast
  from assign_where_Vector [OF 2(2) assms(3,4)] obtain lp3 where
    3: "assign_where (\<lambda>max_len. real step > max_len) (max_len_a s) (max_len_b s)
             (Vector xs) (eos s) NegInf lp2 = Inr lp3" "is_tensor3 B K V lp3"
      "\<forall>n<B. \<forall>i<K. \<forall>j<V. lp3 ! n ! i ! j =
        (if j = eos s \<and> real step > max_len_a s * of_int (xs ! n) + max_len_b s then NegInf
         else lp2 ! n ! i ! j)"
    by blast
  have "constrain_lengths s step lprobs = Inr lp3"
    using 1(1) 2(1) 3(1) assms(2) by (simp add: constrain_lengths_def)
  moreover have "\<forall>n<B. \<forall>i<K. \<forall>j<V. lp3 ! n ! i ! j =
        (if j = eos s then
           (if real step = max_len_a s * of_int (xs ! n) + max_len_b s then Val 0
            else if real step < min_len_a s * of_int (xs ! n) + min_len_b s
                    \<or> real step > max_len_a s * of_int (xs ! n) + max_len_b s then NegInf
            else lprobs ! n ! i ! j)
         else lprobs ! n ! i ! j)"
    using 1(3) 2(3) 3(3) by simp
  moreover have "LengthConstrainedBeamSearch_step s step lprobs scores
      = BeamSearch_step step lp3 scores"
    using \<open>constrain_lengths s step lprobs = Inr lp3\<close>
    by (simp add: LengthConstrainedBeamSearch_step_def)
  ultimately show ?thesis using 3(2) by blast
qed

theorem constrain_lengths_eos_witness:
  "is_tensor3 1 1 3 [[[Val (- 1), Val (- 2), Val (- 3)]]]
   \<and> (\<exists>lp'. constrain_lengths (set_src_lengths (LengthConstrainedBeamSearch_init 2 0 3 0 5) [7]) 1
        [[[Val (- 1), Val (- 2), Val (- 3)]]] = Inr lp' \<and> lp' ! 0 ! 0 ! 2 = NegInf
        \<and> lp' ! 0 ! 0 ! 1 = Val (- 2))"
proof -
  let ?s = "set_src_lengths (LengthConstrainedBeamSearch_init 2 0 3 0 5) [7]"
  have t: "is_tensor3 1 1 3 [[[Val (- 1), Val (- 2), Val (- 3)]]]"
    by (simp add: is_tensor3_def is_tensor2_def)
  have s: "src_lengths ?s = Vector [7]" "length [7::int] = 1" "eos ?s < 3"
    by (simp_all add: set_src_lengths_def LengthConstrainedBeamSearch_init_def)
  from constrain_lengths_eos [OF t s, of 1 "[]"] obtain lp' where
    lp: "constrain_lengths ?s 1 [[[Val (- 1), Val (- 2), Val (- 3)]]] = Inr lp'" and
    nth: "\<forall>n<1. \<forall>i<1. \<forall>j<3. lp' ! n ! i ! j =
        (if j = eos ?s then
           (if real 1 = max_len_a ?s * of_int ([7] ! n) + max_len_b ?s then Val 0
            else if real 1 < min_len_a ?s * of_int ([7] ! n) + min_len_b ?s
                    \<or> real 1 > max_len_a ?s * of_int ([7] ! n) + max_len_b ?s then NegInf
            else [[[Val (- 1), Val (- 2), Val (- 3)]]] ! n ! i ! j)
         else [[[Val (- 1), Val (- 2), Val (- 3)]]] ! n ! i ! j)"
    by blast
  from nth have "lp' ! 0 ! 0 ! 2 = NegInf" "lp' ! 0 ! 0 ! 1 = Val (- 2)"
    by (simp_all add: set_src_lengths_def LengthConstrainedBeamSearch_init_def)
  with t lp show ?thesis
    by blast
qed

text \<open>
  C10. At step 0 the beam-origin array returned by \<^verbatim>\<open>BeamSearch.step\<close>, by
  \<^verbatim>\<open>Sampling.step\<close> and by \<^verbatim>\<open>DiverseSiblingsSearch.step\<close> is zero everywhere: every
  selected candidate extends beam slot 0.
\<close>

theorem first_step_beams_zero:
  assumes "is_tensor3 B K V lprobs"
  shows "(BeamSearch_step 0 lprobs scores = Inr (S1, I1, Bm1) \<longrightarrow>
            list_all (list_all (\<lambda>b. b = 0)) Bm1)
       \<and> (Sampling_step s rescore rescorer draws 0 lprobs scores = Inr (S2, I2, Bm2) \<longrightarrow>
            list_all (list_all (\<lambda>b. b = 0)) Bm2)
       \<and> (DiverseSiblingsSearch_step rate 0 lprobs scores = Inr (S3, I3, Bm3) \<longrightarrow>
            list_all (list_all (\<lambda>b. b = 0)) Bm3)"
proof (intro conjI impI)
  assume "BeamSearch_step 0 lprobs scores = Inr (S1, I1, Bm1)"
  then show "list_all (list_all (\<lambda>b. b = 0)) Bm1"
    using assms by (rule BeamSearch_step_first_beams)
next
  assume "Sampling_step s rescore rescorer draws 0 lprobs scores = Inr (S2, I2, Bm2)"
  then have "Bm2 = replicate (length lprobs) (replicate (length (hd lprobs)) 0)"
    by (rule Sampling_step_first_beams)
  then show "list_all (list_all (\<lambda>b. b = 0)) Bm2"
    by (simp add: list_all_iff)
next
  assume "DiverseSiblingsSearch_step rate 0 lprobs scores = Inr (S3, I3, Bm3)"
  then have "BeamSearch_step 0 lprobs scores = Inr (S3, I3, Bm3)"
    by (rule DiverseSiblingsSearch_step_first)
  then show "list_all (list_all (\<lambda>b. b = 0)) Bm3"
    using assms by (rule BeamSearch_step_first_beams)
qed

theorem first_step_beams_zero_witness:
  "is_tensor3 1 2 3 [[[Val (- 1), Val (- 2), Val (- 1 / 2)], [Val (- 1), Val (- 2), Val (- 1 / 2)]]]
   \<and> BeamSearch_step 0
        [[[Val (- 1), Val (- 2), Val (- 1 / 2)], [Val (- 1), Val (- 2), Val (- 1 / 2)]]] []
      = Inr ([[Val (- 1 / 2), Val (- 1)]], [[2, 0]], [[0, 0]])
   \<and> Sampling_step (Sampling_init 2 (- 1)) True (\<lambda>n l t. Inl RuntimeError) [[0, 1]] 0
        [[[Val (- 1), Val (- 2), Val (- 1 / 2)], [Val (- 1), Val (- 2), Val (- 1 / 2)]]] []
      = Inr ([[Val (- 1 / 2), Val (- 1)]], [[2, 0]], [[0, 0]])
   \<and> DiverseSiblingsSearch_step 1 0
        [[[Val (- 1), Val (- 2), Val (- 1 / 2)], [Val (- 1), Val (- 2), Val (- 1 / 2)]]] []
      = Inr ([[Val (- 1 / 2), Val (- 1)]], [[2, 0]], [[0, 0]])
   \<and> list_all (list_all (\<lambda>b. b = 0)) [[0, 0 :: nat]]"
proof -
  let ?x = "[[[Val (- 1), Val (- 2), Val (- 1 / 2)], [Val (- 1), Val (- 2), Val (- 1 / 2)]]]"
  have t: "is_tensor3 1 2 3 ?x"
    by (simp add: is_tensor3_def is_tensor2_def)
  have b: "BeamSearch_step 0 ?x [] = Inr ([[Val (- 1 / 2), Val (- 1)]], [[2, 0]], [[0, 0]])"
    by (simp add: BeamSearch_step_def first_beam_def rank_flat_def topk_def sort_desc_def
        unzip3_def)
  have s: "Sampling_step (Sampling_init 2 (- 1)) True (\<lambda>n l t. Inl RuntimeError) [[0, 1]] 0 ?x []
      = Inr ([[Val (- 1 / 2), Val (- 1)]], [[2, 0]], [[0, 0]])"
    by (simp add: Sampling_step_def Sampling_init_def truncate_dist_def first_beam_def topk_def
        sort_desc_def multinomial_def gather_last_def expand_beams_def log_lp_def add_pos_pos)
  have d: "DiverseSiblingsSearch_step 1 0 ?x []
      = Inr ([[Val (- 1 / 2), Val (- 1)]], [[2, 0]], [[0, 0]])"
    using b by (simp add: DiverseSiblingsSearch_step_def)
  from first_step_beams_zero [OF t, of "[]" _ _ "[[0, 0]]" "Sampling_init 2 (- 1)" True
      "\<lambda>n l t. Inl RuntimeError" "[[0, 1]]" _ _ "[[0, 0]]" 1 _ _ "[[0, 0]]"] t b s d
  show ?thesis
    by blast
qed

text \<open>
  C4. The claim: the indices returned by \<^verbatim>\<open>BeamSearch.step\<close> never contain the pad token, for
  every input. The step never consults \<^verbatim>\<open>self.pad\<close>; it only ranks one candidate fewer than
  there are. With the pad token 1 holding the best log-probability it is returned first.
\<close>

theorem BeamSearch_step_pad_counterexample:
  "BeamSearch_step 0 [[[Val (- 3), Val (- 1), Val (- 2)]]] []
     = Inr ([[Val (- 1), Val (- 2)]], [[1, 2]], [[0, 0]])
   \<and> (1 :: nat) \<in> set [1, 2]"
  by (simp add: BeamSearch_step_def first_beam_def rank_flat_def topk_def sort_desc_def
      unzip3_def)

text \<open>
  C4, amended. When, within every batch element, every pad candidate ranks strictly below
  every candidate of another token (as when the caller sets the pad log-probability to minus
  infinity and the others are finite), and the output width does not exceed the number
  \<open>K * (V - 1)\<close> of non-pad candidates (always so at step 0), the indices returned by
  \<^verbatim>\<open>BeamSearch.step\<close> never contain the pad token.
\<close>

theorem BeamSearch_step_pad:
  assumes "is_tensor3 B K V lprobs" "0 < B" "0 < K" "0 < V" "pad < V"
    and sc: "0 < step \<Longrightarrow>
       is_tensor3 B K T scores \<and> step \<le> T \<and> min (2 * K) (K * V - 1) \<le> K * (V - 1)"
    and low: "pad_lowest pad (candidates step lprobs scores)"
  shows "\<exists>S I Bm. BeamSearch_step step lprobs scores = Inr (S, I, Bm) \<and>
     (\<forall>row \<in> set I. pad \<notin> set row)"
proof -
  let ?c = "candidates step lprobs scores"
  let ?R = "if step = 0 then Suc 0 else K"
  let ?r = "unzip3 (map (\<lambda>m. rank_top K V (concat m)) ?c)"
  have ct: "is_tensor3 B ?R V ?c"
    using assms(1,3) sc by (intro candidates_tensor) auto
  have step: "BeamSearch_step step lprobs scores = Inr ?r"
    using assms(1-4) sc by (intro BeamSearch_step_candidates) auto
  have k: "min (K * 2) (?R * V - 1) \<le> ?R * (V - 1)"
    using sc by (auto simp: mult.commute)
  have "pad \<notin> set (fst (snd (rank_top K V (concat m))))" if m: "m \<in> set ?c" for m
  proof
    assume "pad \<in> set (fst (snd (rank_top K V (concat m))))"
    then obtain p where p: "p \<in> set (take (min (K * 2) (length (concat m) - 1))
        (sort_desc (concat m)))" "snd p mod V = pad"
      by (auto simp: rank_top_def Let_def)
    from ct m have t: "is_tensor2 ?R V m" by (rule is_tensor3_set)
    then have len: "length (concat m) = ?R * V"
      by (rule length_concat_tensor2)
    have "\<not> (snd p mod V = pad)"
    proof (rule top_excludes_lowest [where Q = "\<lambda>j. j mod V = pad", OF _ _ p(1)])
      fix i j
      assume ij: "i < length (concat m)" "j < length (concat m)" "i mod V = pad"
        "j mod V \<noteq> pad"
      have "i div V < ?R" "j div V < ?R"
        using ij len by (simp_all add: less_mult_imp_div_less)
      moreover have "length (m ! (j div V)) = V"
        using t \<open>j div V < ?R\<close> by (simp add: is_tensor2_iff)
      moreover have "length m = ?R"
        using t by (simp add: is_tensor2_iff)
      ultimately have "m ! (i div V) ! pad < m ! (j div V) ! (j mod V)"
        using pad_lowestD [OF low m, of "i div V" "j div V" "j mod V"] ij assms(4) by simp
      then show "concat m ! i < concat m ! j"
        using concat_tensor2_nth [OF t] ij len by simp
    next
      show "min (K * 2) (length (concat m) - 1)
          \<le> length (filter (\<lambda>j. j mod V \<noteq> pad) [0..<length (concat m)])"
        using k by (simp only: len count_nonpad [OF assms(5)])
    qed
    with p(2) show False by simp
  qed
  then have "\<forall>row \<in> set (fst (snd ?r)). pad \<notin> set row"
    by (auto simp: unzip3_def)
  moreover obtain S I Bm where "?r = (S, I, Bm)"
    by (metis prod_cases3)
  ultimately show ?thesis
    using step by auto
qed

theorem BeamSearch_step_pad_witness:
  "is_tensor3 1 2 3 [[[Val (- 1), NegInf, Val (- 2)], [Val (- 1), NegInf, Val (- 2)]]]
   \<and> is_tensor3 1 2 1 [[[Val 0], [Val (- 1)]]]
   \<and> min (2 * 2) (2 * 3 - 1) \<le> (2 :: nat) * (3 - 1)
   \<and> pad_lowest 1 (candidates 1 [[[Val (- 1), NegInf, Val (- 2)], [Val (- 1), NegInf, Val (- 2)]]]
         [[[Val 0], [Val (- 1)]]])
   \<and> (\<exists>S I Bm. BeamSearch_step 1
          [[[Val (- 1), NegInf, Val (- 2)], [Val (- 1), NegInf, Val (- 2)]]]
          [[[Val 0], [Val (- 1)]]] = Inr (S, I, Bm) \<and> (\<forall>row \<in> set I. 1 \<notin> set row))"
proof -
  let ?x = "[[[Val (- 1), NegInf, Val (- 2)], [Val (- 1), NegInf, Val (- 2)]]]"
  let ?h = "[[[Val 0], [Val (- 1)]]]"
  have t: "is_tensor3 1 2 3 ?x" and h: "is_tensor3 1 2 1 ?h"
    by (simp_all add: is_tensor3_def is_tensor2_def)
  have k: "min (2 * 2) (2 * 3 - 1) \<le> (2 :: nat) * (3 - 1)"
    by simp
  have low: "pad_lowest 1 (candidates 1 ?x ?h)"
    by (simp add: pad_lowest_def candidates_def add_hist_def less_lprob_def upt_rec)
  from BeamSearch_step_pad [OF t _ _ _ _ _ low, of 1] t h k low show ?thesis
    by simp
qed

text \<open>
  C8. For every call of \<^verbatim>\<open>DiverseBeamSearch.step\<close> with the beam size divisible by the
  number of groups (on tensors of positive dimensions) the step returns; the result of
  group \<open>g\<close> is that of \<^verbatim>\<open>BeamSearch.step\<close> on the group with every beam \<open>b\<close> replaced by
  \<open>b * num_groups + g\<close>; position \<open>j * num_groups + g\<close> of the output holds entry \<open>j\<close> of group
  \<open>g\<close>, for scores, indices and beams; the output width is \<open>num_groups\<close> times the width of
  a group.
\<close>

theorem DiverseBeamSearch_step_interleave:
  assumes "is_tensor3 B K V lprobs" "0 < B" "0 < K" "0 < V"
    and "0 < num_groups s" "K mod num_groups s = 0"
    and "0 < step \<Longrightarrow> is_tensor3 B K T scores \<and> step \<le> T"
  shows "\<exists>rs S I Bm. DiverseBeamSearch_step s step lprobs scores = Inr (S, I, Bm) \<and>
     length rs = num_groups s \<and>
     is_tensor2 B (num_groups s * beam_width step (K div num_groups s) V) S \<and>
     is_tensor2 B (num_groups s * beam_width step (K div num_groups s) V) I \<and>
     is_tensor2 B (num_groups s * beam_width step (K div num_groups s) V) Bm \<and>
     (\<forall>g<num_groups s. group_selection s step lprobs scores g (rs ! g) \<and>
        (\<forall>b<B. \<forall>j<beam_width step (K div num_groups s) V.
           S ! b ! (j * num_groups s + g) = fst (rs ! g) ! b ! j \<and>
           I ! b ! (j * num_groups s + g) = fst (snd (rs ! g)) ! b ! j \<and>
           Bm ! b ! (j * num_groups s + g) = snd (snd (rs ! g)) ! b ! j))"
proof -
  let ?G = "num_groups s"
  let ?w = "beam_width step (K div ?G) V"
  let ?buf = "replicate (length lprobs) (replicate (length (hd (hd lprobs))) (0::real))"
  have hd: "lprobs \<noteq> []" "length (hd lprobs) = K" "length (hd (hd lprobs)) = V"
    "length lprobs = B"
    using assms(1-3) by (simp_all add: is_tensor3_hd is_tensor3_length)
  have buf: "is_tensor2 B V ?buf"
    using hd by (simp add: is_tensor2_iff)
  have gs: "\<forall>g\<in>set [0..<?G]. g < ?G" by simp
  from dbs_groups_ok [OF assms(1-7) gs buf] obtain rs where
    rs: "dbs_groups s step lprobs scores [0..<?G] ?buf = Inr rs" "length rs = ?G"
      "\<forall>n<?G. group_selection s step lprobs scores n (rs ! n) \<and>
        is_tensor2 B ?w (fst (rs ! n)) \<and> is_tensor2 B ?w (fst (snd (rs ! n))) \<and>
        is_tensor2 B ?w (snd (snd (rs ! n)))"
    by auto
  let ?S = "interleave (map fst rs)"
  let ?I = "interleave (map (fst \<circ> snd) rs)"
  let ?Bm = "interleave (map (snd \<circ> snd) rs)"
  have step: "DiverseBeamSearch_step s step lprobs scores = Inr (?S, ?I, ?Bm)"
    using hd assms(3,5,6) rs(1) by (simp add: DiverseBeamSearch_step_def)
  have ne: "map fst rs \<noteq> []" "map (fst \<circ> snd) rs \<noteq> []" "map (snd \<circ> snd) rs \<noteq> []"
    using rs(2) assms(5) by auto
  have sh: "\<forall>t\<in>set (map fst rs). is_tensor2 B ?w t"
    "\<forall>t\<in>set (map (fst \<circ> snd) rs). is_tensor2 B ?w t"
    "\<forall>t\<in>set (map (snd \<circ> snd) rs). is_tensor2 B ?w t"
    using rs(2,3) by (simp_all add: all_set_conv_all_nth)
  have "is_tensor2 B (?G * ?w) ?S" "is_tensor2 B (?G * ?w) ?I" "is_tensor2 B (?G * ?w) ?Bm"
    using interleave_tensor(1) [OF ne(1) sh(1)] interleave_tensor(1) [OF ne(2) sh(2)]
      interleave_tensor(1) [OF ne(3) sh(3)] rs(2) by simp_all
  moreover have "?S ! b ! (j * ?G + g) = fst (rs ! g) ! b ! j \<and>
           ?I ! b ! (j * ?G + g) = fst (snd (rs ! g)) ! b ! j \<and>
           ?Bm ! b ! (j * ?G + g) = snd (snd (rs ! g)) ! b ! j"
    if "g < ?G" "b < B" "j < ?w" for g b j
    using interleave_tensor(2) [OF ne(1) sh(1), of g b j]
      interleave_tensor(2) [OF ne(2) sh(2), of g b j]
      interleave_tensor(2) [OF ne(3) sh(3), of g b j] rs(2) that by simp
  ultimately show ?thesis
    using step rs(2,3) by (intro exI [of _ rs] exI [of _ ?S] exI [of _ ?I] exI [of _ ?Bm]) simp
qed

theorem DiverseBeamSearch_step_interleave_witness:
  "is_tensor3 1 4 3 [[[Val (- 1), Val (- 2), Val (- 3)], [Val (- 1), Val (- 2), Val (- 3)],
            [Val (- 1), Val (- 2), Val (- 3)], [Val (- 1), Val (- 2), Val (- 3)]]]
   \<and> 0 < num_groups (DiverseBeamSearch_init 2 1)
   \<and> 4 mod num_groups (DiverseBeamSearch_init 2 1) = 0
   \<and> DiverseBeamSearch_step (DiverseBeamSearch_init 2 1) 0
         [[[Val (- 1), Val (- 2), Val (- 3)], [Val (- 1), Val (- 2), Val (- 3)],
            [Val (- 1), Val (- 2), Val (- 3)], [Val (- 1), Val (- 2), Val (- 3)]]] []
       = Inr ([[Val (- 1), Val (- 2), Val (- 2), Val (- 3)]], [[0, 0, 1, 1]], [[0, 1, 0, 1]])
   \<and> (\<exists>rs. length rs = 2 \<and>
         (\<forall>g<2. group_selection (DiverseBeamSearch_init 2 1) 0
                  [[[Val (- 1), Val (- 2), Val (- 3)], [Val (- 1), Val (- 2), Val (- 3)],
            [Val (- 1), Val (- 2), Val (- 3)], [Val (- 1), Val (- 2), Val (- 3)]]] [] g (rs ! g) \<and>
            (\<forall>j<2. [Val (- 1), Val (- 2), Val (- 2), Val (- 3)] ! (j * 2 + g)
                      = fst (rs ! g) ! 0 ! j \<and>
                    [0, 1, 0, 1] ! (j * 2 + g) = snd (snd (rs ! g)) ! 0 ! j)))"
proof -
  let ?s = "DiverseBeamSearch_init 2 1"
  let ?x = "[[[Val (- 1), Val (- 2), Val (- 3)], [Val (- 1), Val (- 2), Val (- 3)],
            [Val (- 1), Val (- 2), Val (- 3)], [Val (- 1), Val (- 2), Val (- 3)]]]"
  have t: "is_tensor3 1 4 3 ?x"
    by (simp add: is_tensor3_def is_tensor2_def)
  have g: "0 < num_groups ?s" "4 mod num_groups ?s = 0"
    by (simp_all add: DiverseBeamSearch_init_def)
  have w: "beam_width 0 (4 div 2) 3 = 2"
    by (simp add: beam_width_def)
  have v: "DiverseBeamSearch_step ?s 0 ?x []
      = Inr ([[Val (- 1), Val (- 2), Val (- 2), Val (- 3)]], [[0, 0, 1, 1]], [[0, 1, 0, 1]])"
    by code_simp
  from DiverseBeamSearch_step_interleave [OF t _ _ _ g, of 0 0 "[]"] obtain rs S I Bm where
    r: "DiverseBeamSearch_step ?s 0 ?x [] = Inr (S, I, Bm)" "length rs = num_groups ?s"
      "\<forall>g<num_groups ?s. group_selection ?s 0 ?x [] g (rs ! g) \<and>
        (\<forall>b<1. \<forall>j<beam_width 0 (4 div num_groups ?s) 3.
           S ! b ! (j * num_groups ?s + g) = fst (rs ! g) ! b ! j \<and>
           I ! b ! (j * num_groups ?s + g) = fst (snd (rs ! g)) ! b ! j \<and>
           Bm ! b ! (j * num_groups ?s + g) = snd (snd (rs ! g)) ! b ! j)"
    by auto
  from r(1) v have SB: "S = [[Val (- 1), Val (- 2), Val (- 2), Val (- 3)]]" "Bm = [[0, 1, 0, 1]]"
    by simp_all
  have n: "num_groups ?s = 2"
    by (simp add: DiverseBeamSearch_init_def)
  from r(2,3) have "length rs = 2 \<and>
         (\<forall>g<2. group_selection ?s 0 ?x [] g (rs ! g) \<and>
            (\<forall>j<2. [Val (- 1), Val (- 2), Val (- 2), Val (- 3)] ! (j * 2 + g)
                      = fst (rs ! g) ! 0 ! j \<and>
                    [0, 1, 0, 1] ! (j * 2 + g) = snd (snd (rs ! g)) ! 0 ! j))"
    unfolding n w SB by simp
  with t g v show ?thesis
    by blast
qed

text \<open>
  C5. The claim: \<^verbatim>\<open>_sample_topp\<close> keeps the smallest prefix of the sorted tokens whose
  cumulative mass strictly exceeds \<open>p\<close>. The mask is \<^verbatim>\<open>cumsum_probs.lt(p)\<close> plus one more token,
  so the kept mass is at least \<open>p\<close>, and equal to \<open>p\<close> when a cumulative sum hits \<open>p\<close>
  exactly: for two tokens of probability 1/2 and \<open>p = 1/2\<close> one token is kept, of mass 1/2,
  while the smallest prefix of mass above 1/2 has two tokens.
\<close>

theorem sample_topp_nucleus_counterexample:
  "sample_topp (1 / 2) [[[Val (ln (1 / 2)), Val (ln (1 / 2))]]] = Inr ([[[1 / 2]]], [[[0]]])
   \<and> map fst (sort_desc (map exp_lp [Val (ln (1 / 2)), Val (ln (1 / 2))])) = [1 / 2, 1 / 2]
   \<and> \<not> is_nucleus_exceeding (1 / 2) [1 / 2, 1 / 2] 1
   \<and> is_nucleus_exceeding (1 / 2) [1 / 2, 1 / 2] 2"
  by (simp add: sample_topp_def topp_row_def sort_desc_def cumsum_def is_nucleus_exceeding_def
      less_Suc_eq numeral_2_eq_2)

text \<open>
  C5, amended. For every tensor whose rows are probability distributions (after \<^verbatim>\<open>exp\<close>)
  and every \<open>p\<close> with \<open>0 < p \<le> 1\<close>, \<^verbatim>\<open>_sample_topp\<close> returns, and in every row it keeps
  exactly the smallest prefix of the tokens sorted descending by probability whose
  cumulative mass is at least \<open>p\<close>: the \<open>n\<close> first tokens, where \<open>n\<close> is one more than the
  number of tokens with cumulative mass below \<open>p\<close>, so at least one token. The kept tokens
  carry their probability and their index; the positions after them (up to the common
  width of the result) carry probability 0.
\<close>

theorem sample_topp_nucleus:
  assumes t: "is_tensor3 B K V lprobs" and pos: "0 < B" "0 < K" and p: "0 < p" "p \<le> 1"
    and dist: "\<forall>b<B. \<forall>i<K. sum_list (map exp_lp (lprobs ! b ! i)) = 1"
  shows "\<exists>P I. sample_topp p lprobs = Inr (P, I) \<and>
     (\<forall>b<B. \<forall>i<K.
        let sorted = sort_desc (map exp_lp (lprobs ! b ! i));
            n = Suc (length (filter (\<lambda>c. c < p) (cumsum (map fst sorted))))
        in is_nucleus_reaching p (map fst sorted) n \<and> n \<le> length (P ! b ! i) \<and>
           length (I ! b ! i) = length (P ! b ! i) \<and>
           (\<forall>j<length (P ! b ! i). I ! b ! i ! j = snd (sorted ! j) \<and>
              P ! b ! i ! j = (if j < n then fst (sorted ! j) else 0)))"
proof -
  define probs where "probs = map (map (map exp_lp)) lprobs"
  define rows where "rows = map (map (topp_row p)) probs"
  define lasts where "lasts = concat (map (map (\<lambda>(sp, si, m, l). l)) rows)"
  define md where "md = foldr max lasts 0"
  define pr where "pr b i = map exp_lp (lprobs ! b ! i)" for b i
  define c where "c b i = length (filter (\<lambda>c. c < p) (cumsum (map fst (sort_desc (pr b i)))))"
    for b i
  define trim where "trim = (\<lambda>(sp :: real list, si :: nat list, m :: bool list, l :: nat).
      map (\<lambda>(x, c). if c then x else 0) (zip (take (md + 1) sp) (take (md + 1) m)))"
  define cut where "cut = (\<lambda>(sp :: real list, si :: nat list, m :: bool list, l :: nat).
      take (md + 1) si)"
  have shape: "length lprobs = B" "\<And>b. b < B \<Longrightarrow> length (lprobs ! b) = K"
    "\<And>b i. b < B \<Longrightarrow> i < K \<Longrightarrow> length (lprobs ! b ! i) = V"
    using t by (simp_all add: is_tensor3_iff)
  have V: "0 < V"
  proof (rule ccontr)
    assume "\<not> 0 < V"
    with shape(3) [of 0 0] pos have "lprobs ! 0 ! 0 = []" by simp
    moreover from dist pos have "sum_list (map exp_lp (lprobs ! 0 ! 0)) = 1" by blast
    ultimately show False by simp
  qed
  have row: "rows ! b ! i = topp_row p (pr b i)" if "b < B" "i < K" for b i
    using that shape by (simp add: rows_def probs_def pr_def)
  have prl: "length (pr b i) = V" if "b < B" "i < K" for b i
    using that shape by (simp add: pr_def)
  have props:
    "topp_row p (pr b i) = (map fst (sort_desc (pr b i)), map snd (sort_desc (pr b i)),
        (map (\<lambda>c. c < p) (cumsum (map fst (sort_desc (pr b i)))))[c b i := True], c b i)"
    "c b i < V"
    "\<forall>j<V. (map (\<lambda>c. c < p) (cumsum (map fst (sort_desc (pr b i)))))[c b i := True] ! j
        \<longleftrightarrow> j \<le> c b i"
    "is_nucleus_reaching p (map fst (sort_desc (pr b i))) (Suc (c b i))"
    if "b < B" "i < K" for b i
  proof -
    have nn: "\<forall>x\<in>set (pr b i). 0 \<le> x"
      by (auto simp: pr_def exp_lp_nonneg)
    have one: "sum_list (pr b i) = 1"
      using dist that by (simp add: pr_def)
    from topp_row_props [OF nn one p] prl [OF that]
    show "topp_row p (pr b i) = (map fst (sort_desc (pr b i)), map snd (sort_desc (pr b i)),
        (map (\<lambda>c. c < p) (cumsum (map fst (sort_desc (pr b i)))))[c b i := True], c b i)"
      "c b i < V"
      "\<forall>j<V. (map (\<lambda>c. c < p) (cumsum (map fst (sort_desc (pr b i)))))[c b i := True] ! j
        \<longleftrightarrow> j \<le> c b i"
      "is_nucleus_reaching p (map fst (sort_desc (pr b i))) (Suc (c b i))"
      by (simp_all add: c_def)
  qed
  have rl: "length rows = B" "\<And>b. b < B \<Longrightarrow> length (rows ! b) = K"
    using shape by (simp_all add: rows_def probs_def)
  have inl: "c b i \<in> set lasts" if "b < B" "i < K" for b i
  proof -
    have "rows ! b \<in> set rows" using that rl by simp
    moreover have "rows ! b ! i \<in> set (rows ! b)" using that rl by simp
    moreover have "(\<lambda>(sp, si, m, l). l) (rows ! b ! i) = c b i"
      using row [OF that] props(1) [OF that] by simp
    ultimately show ?thesis
      unfolding lasts_def by (auto intro!: bexI [of _ "rows ! b"] image_eqI [of _ _ "rows ! b ! i"])
  qed
  have lastsV: "\<forall>l\<in>set lasts. l \<le> V - 1"
  proof
    fix l assume "l \<in> set lasts"
    then obtain rw x where "rw \<in> set rows" "x \<in> set rw" "l = (\<lambda>(sp, si, m, l). l) x"
      unfolding lasts_def by auto
    then obtain b i where bi: "b < B" "i < K" "x = rows ! b ! i"
      using rl by (metis in_set_conv_nth)
    with \<open>l = (\<lambda>(sp, si, m, l). l) x\<close> row [of b i] props(1,2) [of b i] show "l \<le> V - 1"
      by simp
  qed
  have ne: "lasts \<noteq> []"
    using inl [of 0 0] pos by auto
  have full: "list_all (list_all (\<lambda>r. r \<noteq> [])) probs"
    using shape V by (auto simp: probs_def list_all_length)
  have mdV: "md < V"
    using foldr_max_le [OF lastsV] V by (simp add: md_def)
  have res: "sample_topp p lprobs = Inr (map (map trim) rows, map (map cut) rows)"
    using ne full
    unfolding sample_topp_def Let_def probs_def [symmetric] rows_def [symmetric]
      lasts_def [symmetric] md_def [symmetric] trim_def cut_def
    by simp
  have final: "is_nucleus_reaching p (map fst (sort_desc (pr b i))) (Suc (c b i)) \<and>
      Suc (c b i) \<le> length (map (map trim) rows ! b ! i) \<and>
      length (map (map cut) rows ! b ! i) = length (map (map trim) rows ! b ! i) \<and>
      (\<forall>j<length (map (map trim) rows ! b ! i).
          map (map cut) rows ! b ! i ! j = snd (sort_desc (pr b i) ! j) \<and>
          map (map trim) rows ! b ! i ! j =
            (if j < Suc (c b i) then fst (sort_desc (pr b i) ! j) else 0))"
    if bi: "b < B" "i < K" for b i
  proof -
    let ?sd = "sort_desc (pr b i)"
    let ?m = "(map (\<lambda>c. c < p) (cumsum (map fst ?sd)))[c b i := True]"
    have sdl: "length ?sd = V" using prl [OF bi] by simp
    have T: "map (map trim) rows ! b ! i
        = map (\<lambda>(x, c). if c then x else 0) (zip (take (md + 1) (map fst ?sd)) (take (md + 1) ?m))"
      using bi rl row [OF bi] props(1) [OF bi] by (simp add: trim_def)
    have C: "map (map cut) rows ! b ! i = take (md + 1) (map snd ?sd)"
      using bi rl row [OF bi] props(1) [OF bi] by (simp add: cut_def)
    have lT: "length (map (map trim) rows ! b ! i) = md + 1"
      unfolding T using sdl mdV by simp
    have lC: "length (map (map cut) rows ! b ! i) = md + 1"
      unfolding C using sdl mdV by simp
    have cmd: "c b i \<le> md"
      unfolding md_def using inl [OF bi] by (rule foldr_max_ge)
    have el: "map (map cut) rows ! b ! i ! j = snd (?sd ! j) \<and>
          map (map trim) rows ! b ! i ! j = (if j < Suc (c b i) then fst (?sd ! j) else 0)"
      if "j < md + 1" for j
    proof -
      have jV: "j < V" using that mdV by simp
      have "?m ! j \<longleftrightarrow> j \<le> c b i"
        using props(3) [OF bi] jV by simp
      then show ?thesis
        unfolding T C using that jV sdl by (auto simp: less_Suc_eq_le)
    qed
    show ?thesis
      using props(4) [OF bi] cmd el by (simp add: lT lC)
  qed
  show ?thesis
    unfolding res
    by (intro exI [of _ "map (map trim) rows"] exI [of _ "map (map cut) rows"] conjI refl
        allI impI) (use final in \<open>simp add: Let_def pr_def c_def\<close>)
qed

theorem sample_topp_nucleus_witness:
  "is_tensor3 1 1 4 [[[Val (ln (1 / 2)), Val (ln (3 / 10)), Val (ln (3 / 20)), Val (ln (1 / 20))]]]
   \<and> sum_list (map exp_lp
          ([[[Val (ln (1 / 2)), Val (ln (3 / 10)), Val (ln (3 / 20)), Val (ln (1 / 20))]]]
             ! 0 ! 0)) = 1
   \<and> sample_topp (7 / 10)
         [[[Val (ln (1 / 2)), Val (ln (3 / 10)), Val (ln (3 / 20)), Val (ln (1 / 20))]]]
       = Inr ([[[1 / 2, 3 / 10]]], [[[0, 1]]])
   \<and> is_nucleus_reaching (7 / 10) [1 / 2, 3 / 10, 3 / 20, 1 / 20] 2"
proof -
  let ?x = "[[[Val (ln (1 / 2)), Val (ln (3 / 10)), Val (ln (3 / 20)), Val (ln (1 / 20))]]]"
  have t: "is_tensor3 1 1 4 ?x"
    by (simp add: is_tensor3_def is_tensor2_def)
  have d: "\<forall>b<1. \<forall>i<1. sum_list (map exp_lp (?x ! b ! i)) = 1"
    by simp
  have v: "sample_topp (7 / 10) ?x = Inr ([[[1 / 2, 3 / 10]]], [[[0, 1]]])"
    by (simp add: sample_topp_def topp_row_def sort_desc_def cumsum_def)
  have s: "map fst (sort_desc (map exp_lp (?x ! 0 ! 0))) = [1 / 2, 3 / 10, 3 / 20, 1 / 20]"
    by (simp add: sort_desc_def)
  have n: "Suc (length (filter (\<lambda>c. c < 7 / 10) (cumsum [1 / 2, 3 / 10, 3 / 20, 1 / 20 :: real])))
      = 2"
    by (simp add: cumsum_def)
  from sample_topp_nucleus [OF t _ _ _ _ d, of "7 / 10"]
  have "is_nucleus_reaching (7 / 10) (map fst (sort_desc (map exp_lp (?x ! 0 ! 0))))
      (Suc (length (filter (\<lambda>c. c < 7 / 10)
         (cumsum (map fst (sort_desc (map exp_lp (?x ! 0 ! 0))))))))"
    by (auto simp: Let_def)
  then have "is_nucleus_reaching (7 / 10) [1 / 2, 3 / 10, 3 / 20, 1 / 20] 2"
    unfolding s n .
  moreover have "sum_list (map exp_lp (?x ! 0 ! 0)) = 1"
    by simp
  ultimately show ?thesis
    using t v by blast
qed

text \<open>
  C6. The claim, which is also the docstring of the class: with \<open>diversity_rate = 0\<close> a step
  after the first returns what \<^verbatim>\<open>BeamSearch.step\<close> returns. \<^verbatim>\<open>DiverseSiblingsSearch\<close> takes
  \<open>k = min (2 * K) (K * V - 1)\<close> from the flattened size and asks every beam slot, of \<open>V\<close>
  entries, for its top \<open>k\<close>: with two beams over three tokens \<open>k = 4\<close> exceeds 3 and
  \<^verbatim>\<open>torch.topk\<close> raises, while \<^verbatim>\<open>BeamSearch.step\<close> returns four candidates. Where \<open>k \<le> V\<close>
  the two steps agree (\<open>DiverseSiblingsSearch_step_zero_rate\<close> above, for the order among
  equal scores that the model fixes).
\<close>

theorem DiverseSiblingsSearch_step_zero_rate_raises:
  "DiverseSiblingsSearch_step 0 1
     [[[Val (- 1), Val (- 2), Val (- 3)], [Val (- 1), Val (- 2), Val (- 3)]]]
     [[[Val 0], [Val (- 1)]]] = Inl RuntimeError
   \<and> BeamSearch_step 1
     [[[Val (- 1), Val (- 2), Val (- 3)], [Val (- 1), Val (- 2), Val (- 3)]]]
     [[[Val 0], [Val (- 1)]]]
     = Inr ([[Val (- 1), Val (- 2), Val (- 2), Val (- 3)]], [[0, 1, 0, 2]], [[0, 0, 1, 0]])"
  by code_simp

text \<open>
  C9. The claim describes the steps after the first for every input: the top \<open>k\<close> of every
  beam slot, penalized and pooled, and the top \<open>k\<close> of the pool returned, with
  \<open>k = min (2 * K) (K * V - 1)\<close>. The code takes this \<open>k\<close> from the flattened size \<open>K * V\<close>, as
  \<^verbatim>\<open>BeamSearch.step\<close> does, and passes it to \<^verbatim>\<open>torch.topk\<close> on a single beam slot, which has
  \<open>V\<close> entries: with two beams over three tokens \<open>k = 4\<close>, the top 4 of the first slot's
  three cumulative scores is refused, and the step raises instead of returning the top of
  the pool. This is the defect met in C6. Where \<open>k \<le> V\<close> the step does what the claim
  describes (\<open>DiverseSiblingsSearch_step_pooled\<close> above).
\<close>

theorem DiverseSiblingsSearch_step_later_raises:
  "DiverseSiblingsSearch_step (1 / 2) 1
     [[[Val (- 1), Val (- 2), Val (- 4)], [Val (- 2), Val (- 3), Val (- 5)]]]
     [[[Val (- 1)], [Val (- 1)]]] = Inl RuntimeError
   \<and> min (2 * 2) (2 * 3 - 1) = (4 :: nat)
   \<and> topk 4 [Val (- 2), Val (- 3), Val (- 5)] = Inl RuntimeError"
  by code_simp

end
